theory Spec2Isabelle
  imports Main
begin

section \<open>Python string primitives\<close>

text \<open>
  Lines are Python \<open>str\<close> values. They are modelled as HOL strings, whose characters are
  the code points 0 to 255; the corpus the scripts are written for (the King James text)
  is ASCII. Within that range the functions below are what Python computes:
  \<open>str.isspace\<close> and the regular expression class \<open>\s\<close> hold of the twelve characters
  listed, \<open>\d\<close> of the ten ASCII digits only, and \<open>int\<close> of a digit string is unbounded.
\<close>

definition isspace :: "char \<Rightarrow> bool" where
  "isspace c = (c \<in> set [CHR 0x09, CHR 0x0A, CHR 0x0B, CHR 0x0C, CHR 0x0D,
                          CHR 0x1C, CHR 0x1D, CHR 0x1E, CHR 0x1F, CHR 0x20,
                          CHR 0x85, CHR 0xA0])"

definition isdigit :: "char \<Rightarrow> bool" where
  "isdigit c = (c \<in> set ''0123456789'')"

definition lstrip :: "string \<Rightarrow> string" where
  "lstrip s = dropWhile isspace s"

definition rstrip :: "string \<Rightarrow> string" where
  "rstrip s = rev (dropWhile isspace (rev s))"

definition strip :: "string \<Rightarrow> string" where
  "strip s = rstrip (lstrip s)"

text \<open>\<open>int(s)\<close> for a string of ASCII digits.\<close>

definition digit_val :: "char \<Rightarrow> nat" where
  "digit_val c = of_char c - 48"

definition int_of :: "string \<Rightarrow> nat" where
  "int_of ds = foldl (\<lambda>n c. 10 * n + digit_val c) 0 ds"

text \<open>\<open>str.lower\<close> and \<open>str.upper\<close> on the code points 0 to 255. Lowering maps a character
  to a character. Raising maps the sharp s to two characters; the micro sign and the y with
  diaeresis rise to code points above 255, which no pattern or alias of the scripts
  mentions, and are kept as they are.\<close>

definition lower_char :: "char \<Rightarrow> char" where
  "lower_char c =
     (let n = (of_char c :: nat)
      in if (65 \<le> n \<and> n \<le> 90) \<or> (192 \<le> n \<and> n \<le> 222 \<and> n \<noteq> 215)
         then char_of (n + 32) else c)"

definition lower :: "string \<Rightarrow> string" where
  "lower s = map lower_char s"

definition upper_char :: "char \<Rightarrow> string" where
  "upper_char c =
     (let n = (of_char c :: nat)
      in if (97 \<le> n \<and> n \<le> 122) \<or> (224 \<le> n \<and> n \<le> 254 \<and> n \<noteq> 247)
         then [char_of (n - 32)]
         else if n = 223 then ''SS'' else [c])"

definition upper :: "string \<Rightarrow> string" where
  "upper s = concat (map upper_char s)"

section \<open>The regular expressions\<close>

text \<open>
  Each compiled pattern is modelled by the function that \<open>pattern.match\<close> computes: the
  groups of the match, or \<open>None\<close>. \<open>.\<close> matches every character but the newline, \<open>$\<close>
  matches at the end of the string and before a final newline, and a greedy \<open>\s+\<close> gives
  characters back, the longest run first, when what follows it fails.
\<close>

definition dot_star_eol :: "string \<Rightarrow> string option" where
  "dot_star_eol r =
     (let g = takeWhile (\<lambda>c. c \<noteq> CHR 0x0A) r; rest = dropWhile (\<lambda>c. c \<noteq> CHR 0x0A) r
      in if rest = [] \<or> rest = [CHR 0x0A] then Some g else None)"

definition dot_plus_eol :: "string \<Rightarrow> string option" where
  "dot_plus_eol r =
     (case dot_star_eol r of None \<Rightarrow> None | Some g \<Rightarrow> if g = [] then None else Some g)"

definition digits_eol :: "string \<Rightarrow> string option" where
  "digits_eol r =
     (let ds = takeWhile isdigit r; rest = dropWhile isdigit r
      in if ds \<noteq> [] \<and> (rest = [] \<or> rest = [CHR 0x0A]) then Some ds else None)"

fun ws_then :: "(string \<Rightarrow> 'a option) \<Rightarrow> nat \<Rightarrow> string \<Rightarrow> 'a option" where
  "ws_then k 0 s = None"
| "ws_then k (Suc n) s =
     (case k (drop (Suc n) s) of Some r \<Rightarrow> Some r | None \<Rightarrow> ws_then k n s)"

definition spaces_then :: "(string \<Rightarrow> 'a option) \<Rightarrow> string \<Rightarrow> 'a option" where
  "spaces_then k s = ws_then k (length (takeWhile isspace s)) s"

text \<open>\<open>BOOK_HEADING_RE = ^BOOK\s+(\d{1,2})\s+(.+)$\<close>, ignoring case (both scripts).\<close>

definition BOOK_HEADING_RE :: "string \<Rightarrow> (string \<times> string) option" where
  "BOOK_HEADING_RE s =
     (if lower (take 4 s) = ''book''
      then spaces_then
             (\<lambda>r. let ds = takeWhile isdigit r
                  in if length ds = 1 \<or> length ds = 2
                     then spaces_then (\<lambda>t. map_option (Pair ds) (dot_plus_eol t))
                            (drop (length ds) r)
                     else None)
             (drop 4 s)
      else None)"

text \<open>\<open>NUM_VERSE_RE = ^(\d{2}):(\d{3}):(\d{3})\s+(.*)$\<close> (both scripts).\<close>

fun NUM_VERSE_RE :: "string \<Rightarrow> (string \<times> string \<times> string \<times> string) option" where
  "NUM_VERSE_RE (b1 # b2 # k1 # c1 # c2 # c3 # k2 # v1 # v2 # v3 # r) =
     (if isdigit b1 \<and> isdigit b2 \<and> k1 = CHR '':'' \<and>
         isdigit c1 \<and> isdigit c2 \<and> isdigit c3 \<and> k2 = CHR '':'' \<and>
         isdigit v1 \<and> isdigit v2 \<and> isdigit v3
      then map_option (\<lambda>t. ([b1, b2], [c1, c2, c3], [v1, v2, v3], t))
             (spaces_then dot_star_eol r)
      else None)"
| "NUM_VERSE_RE _ = None"

text \<open>\<open>VERSE_COLON_RE = ^(\d+):(\d+)\s+(.*)$\<close>, as in \<open>1:1 In the beginning\<close>.\<close>

definition VERSE_COLON_RE :: "string \<Rightarrow> (string \<times> string \<times> string) option" where
  "VERSE_COLON_RE s =
     (let c = takeWhile isdigit s
      in if c = [] then None
         else case dropWhile isdigit s of
                [] \<Rightarrow> None
              | k # r \<Rightarrow>
                  if k \<noteq> CHR '':'' then None
                  else let v = takeWhile isdigit r
                       in if v = [] then None
                          else map_option (\<lambda>t. (c, v, t))
                                 (spaces_then dot_star_eol (dropWhile isdigit r)))"

text \<open>\<open>VERSE_SIMPLE_RE = ^(\d+)\s+(.*)$\<close>, as in \<open>1 In the beginning\<close>; \<open>VERSE_RE\<close> of
  the export script is the same pattern.\<close>

definition VERSE_SIMPLE_RE :: "string \<Rightarrow> (string \<times> string) option" where
  "VERSE_SIMPLE_RE s =
     (let v = takeWhile isdigit s
      in if v = [] then None
         else map_option (Pair v) (spaces_then dot_star_eol (dropWhile isdigit s)))"

definition VERSE_RE :: "string \<Rightarrow> (string \<times> string) option" where
  "VERSE_RE s = VERSE_SIMPLE_RE s"

text \<open>\<open>CHAPTER_HEADING_RE = ^(?:CHAPTER|PSALM)\s+(\d+)$\<close>, ignoring case.\<close>

definition CHAPTER_HEADING_RE :: "string \<Rightarrow> string option" where
  "CHAPTER_HEADING_RE s =
     (case (if lower (take 7 s) = ''chapter'' then spaces_then digits_eol (drop 7 s) else None) of
        Some n \<Rightarrow> Some n
      | None \<Rightarrow> if lower (take 5 s) = ''psalm'' then spaces_then digits_eol (drop 5 s) else None)"

text \<open>\<open>CHAPTER_RE = ^Chapter\s+(\d+)$\<close>, ignoring case (export script).\<close>

definition CHAPTER_RE :: "string \<Rightarrow> string option" where
  "CHAPTER_RE s =
     (if lower (take 7 s) = ''chapter'' then spaces_then digits_eol (drop 7 s) else None)"

text \<open>\<open>re.sub(cls+, " ", s)\<close>: every maximal run of characters of the class becomes one
  space.\<close>

function sub_runs :: "(char \<Rightarrow> bool) \<Rightarrow> string \<Rightarrow> string" where
  "sub_runs p [] = []"
| "sub_runs p (c # cs) =
     (if p c then CHR '' '' # sub_runs p (dropWhile p cs) else c # sub_runs p cs)"
  by pat_completeness auto
termination
  by (relation "measure (\<lambda>(p, s). length s)")
     (auto simp: le_imp_less_Suc length_dropWhile_le)

text \<open>The class \<open>[\-:,.;'\"()]\<close> of the heading detector.\<close>

definition ispunct :: "char \<Rightarrow> bool" where
  "ispunct c = (c \<in> set [CHR ''-'', CHR '':'', CHR '','', CHR ''.'', CHR '';'',
                          CHR 0x27, CHR 0x22, CHR ''('', CHR '')''])"

text \<open>\<open>s.startswith(p)\<close> and \<open>a in s\<close>.\<close>

definition startswith :: "string \<Rightarrow> string \<Rightarrow> bool" where
  "startswith s p = (take (length p) s = p)"

fun contains :: "string \<Rightarrow> string \<Rightarrow> bool" where
  "contains [] a = (a = [])"
| "contains (c # cs) a = (startswith (c # cs) a \<or> contains cs a)"

text \<open>A match object is truthy, \<open>None\<close> is not.\<close>

definition matches :: "'a option \<Rightarrow> bool" where
  "matches m = (m \<noteq> None)"

section \<open>The format detector\<close>

text \<open>\<open>detect_numbered_format\<close> of \<open>export_bible_json.py\<close>: two full counts.\<close>

definition detect_numbered_format_export :: "string list \<Rightarrow> bool" where
  "detect_numbered_format_export lines =
     (let verses = sum_list (map (\<lambda>ln. 1::nat) (filter (\<lambda>ln. matches (NUM_VERSE_RE ln)) lines));
          books = sum_list (map (\<lambda>ln. 1::nat) (filter (\<lambda>ln. matches (BOOK_HEADING_RE ln)) lines))
      in verses > 200 \<and> books > 30)"

text \<open>\<open>detect_numbered_format\<close> of \<open>split_bible_kjv.py\<close>: one loop over the lines that
  returns as soon as both counters are over their thresholds.\<close>

fun detect_loop :: "nat \<Rightarrow> nat \<Rightarrow> string list \<Rightarrow> bool" where
  "detect_loop verse_matches book_matches [] = False"
| "detect_loop verse_matches book_matches (ln # lns) =
     (let vm = (if matches (NUM_VERSE_RE ln) then verse_matches + 1 else verse_matches);
          bm = (if matches (BOOK_HEADING_RE ln) then book_matches + 1 else book_matches)
      in if vm > 200 \<and> bm > 30 then True else detect_loop vm bm lns)"

definition detect_numbered_format :: "string list \<Rightarrow> bool" where
  "detect_numbered_format lines = detect_loop 0 0 lines"

section \<open>The canon and the alias table\<close>

definition BOOKS :: "string list" where
  "BOOKS =
     [''Genesis'', ''Exodus'', ''Leviticus'', ''Numbers'', ''Deuteronomy'', ''Joshua'',
      ''Judges'', ''Ruth'', ''1 Samuel'', ''2 Samuel'', ''1 Kings'', ''2 Kings'',
      ''1 Chronicles'', ''2 Chronicles'', ''Ezra'', ''Nehemiah'', ''Esther'', ''Job'',
      ''Psalms'', ''Proverbs'', ''Ecclesiastes'', ''Song of Solomon'', ''Isaiah'',
      ''Jeremiah'', ''Lamentations'', ''Ezekiel'', ''Daniel'', ''Hosea'', ''Joel'', ''Amos'',
      ''Obadiah'', ''Jonah'', ''Micah'', ''Nahum'', ''Habakkuk'', ''Zephaniah'', ''Haggai'',
      ''Zechariah'', ''Malachi'', ''Matthew'', ''Mark'', ''Luke'', ''John'', ''Acts'',
      ''Romans'', ''1 Corinthians'', ''2 Corinthians'', ''Galatians'', ''Ephesians'',
      ''Philippians'', ''Colossians'', ''1 Thessalonians'', ''2 Thessalonians'',
      ''1 Timothy'', ''2 Timothy'', ''Titus'', ''Philemon'', ''Hebrews'', ''James'',
      ''1 Peter'', ''2 Peter'', ''1 John'', ''2 John'', ''3 John'', ''Jude'', ''Revelation'']"

text \<open>The dictionary \<open>ALIASES\<close>, in its insertion order, which is the order in which
  \<open>ALIASES.items()\<close> yields its entries.\<close>

definition ALIASES :: "(string \<times> string list) list" where
  "ALIASES =
     [(''Genesis'', [''GENESIS'']),
      (''Exodus'', [''EXODUS'']),
      (''Leviticus'', [''LEVITICUS'']),
      (''Numbers'', [''NUMBERS'']),
      (''Deuteronomy'', [''DEUTERONOMY'']),
      (''Joshua'', [''JOSHUA'']),
      (''Judges'', [''JUDGES'']),
      (''Ruth'', [''RUTH'']),
      (''1 Samuel'', [''1 SAMUEL'', ''FIRST BOOK OF SAMUEL'']),
      (''2 Samuel'', [''2 SAMUEL'', ''SECOND BOOK OF SAMUEL'']),
      (''1 Kings'', [''1 KINGS'', ''FIRST BOOK OF KINGS'']),
      (''2 Kings'', [''2 KINGS'', ''SECOND BOOK OF KINGS'']),
      (''1 Chronicles'', [''1 CHRONICLES'', ''FIRST BOOK OF CHRONICLES'']),
      (''2 Chronicles'', [''2 CHRONICLES'', ''SECOND BOOK OF CHRONICLES'']),
      (''Ezra'', [''EZRA'']),
      (''Nehemiah'', [''NEHEMIAH'']),
      (''Esther'', [''ESTHER'']),
      (''Job'', [''JOB'']),
      (''Psalms'', [''PSALM'', ''PSALMS'']),
      (''Proverbs'', [''PROVERBS'']),
      (''Ecclesiastes'', [''ECCLESIASTES'']),
      (''Song of Solomon'', [''SONG OF SOLOMON'', ''CANTICLES'']),
      (''Isaiah'', [''ISAIAH'']),
      (''Jeremiah'', [''JEREMIAH'']),
      (''Lamentations'', [''LAMENTATIONS'']),
      (''Ezekiel'', [''EZEKIEL'']),
      (''Daniel'', [''DANIEL'']),
      (''Hosea'', [''HOSEA'']),
      (''Joel'', [''JOEL'']),
      (''Amos'', [''AMOS'']),
      (''Obadiah'', [''OBADIAH'']),
      (''Jonah'', [''JONAH'']),
      (''Micah'', [''MICAH'']),
      (''Nahum'', [''NAHUM'']),
      (''Habakkuk'', [''HABAKKUK'']),
      (''Zephaniah'', [''ZEPHANIAH'']),
      (''Haggai'', [''HAGGAI'']),
      (''Zechariah'', [''ZECHARIAH'']),
      (''Malachi'', [''MALACHI'']),
      (''Matthew'', [''MATTHEW'']),
      (''Mark'', [''MARK'']),
      (''Luke'', [''LUKE'']),
      (''John'', [''JOHN'']),
      (''Acts'', [''ACTS'']),
      (''Romans'', [''ROMANS'']),
      (''1 Corinthians'',
         [''1 CORINTHIANS'', ''FIRST EPISTLE OF PAUL THE APOSTLE TO THE CORINTHIANS'']),
      (''2 Corinthians'',
         [''2 CORINTHIANS'', ''SECOND EPISTLE OF PAUL THE APOSTLE TO THE CORINTHIANS'']),
      (''Galatians'', [''GALATIANS'']),
      (''Ephesians'', [''EPHESIANS'']),
      (''Philippians'', [''PHILIPPIANS'']),
      (''Colossians'', [''COLOSSIANS'']),
      (''1 Thessalonians'', [''1 THESSALONIANS'', ''FIRST EPISTLE TO THE THESSALONIANS'']),
      (''2 Thessalonians'', [''2 THESSALONIANS'', ''SECOND EPISTLE TO THE THESSALONIANS'']),
      (''1 Timothy'', [''1 TIMOTHY'', ''FIRST EPISTLE TO TIMOTHY'']),
      (''2 Timothy'', [''2 TIMOTHY'', ''SECOND EPISTLE TO TIMOTHY'']),
      (''Titus'', [''TITUS'']),
      (''Philemon'', [''PHILEMON'']),
      (''Hebrews'', [''HEBREWS'']),
      (''James'', [''JAMES'']),
      (''1 Peter'', [''1 PETER'', ''FIRST EPISTLE GENERAL OF PETER'']),
      (''2 Peter'', [''2 PETER'', ''SECOND EPISTLE GENERAL OF PETER'']),
      (''1 John'', [''1 JOHN'', ''FIRST EPISTLE GENERAL OF JOHN'']),
      (''2 John'', [''2 JOHN'', ''SECOND EPISTLE OF JOHN'']),
      (''3 John'', [''3 JOHN'', ''THIRD EPISTLE OF JOHN'']),
      (''Jude'', [''JUDE'']),
      (''Revelation'',
         [''REVELATION'', ''REVELATION OF ST. JOHN'', ''REVELATION OF ST. JOHN THE DIVINE''])]"

section \<open>The heading detector\<close>

text \<open>
  \<open>is_heading\<close> of the split script. The line is stripped; an empty line and a line that
  is a verse line are no heading. Then the \<open>BOOK NN Name\<close> pattern is tried, whose name
  must equal a canon name when both are lowered, and last the alias table is walked in
  its order: the first book one of whose aliases occurs in the uppercased line or in the
  line with its punctuation collapsed is returned.
\<close>

definition book_by_name :: "string \<Rightarrow> string option" where
  "book_by_name name_part = find (\<lambda>b. lower b = lower name_part) BOOKS"

definition is_heading :: "string \<Rightarrow> string option" where
  "is_heading line =
     (let raw = strip line
      in if raw = [] then None
         else if matches (VERSE_COLON_RE raw) \<or> matches (VERSE_SIMPLE_RE raw) then None
         else
           let upper = upper raw;
               cleaned = sub_runs ispunct upper;
               cleaned = strip (sub_runs isspace cleaned)
           in case (case BOOK_HEADING_RE raw of
                      None \<Rightarrow> None
                    | Some (num, name) \<Rightarrow> book_by_name (strip name)) of
                Some b \<Rightarrow> Some b
              | None \<Rightarrow>
                  map_option fst
                    (find (\<lambda>(canon, aliases).
                             list_ex (\<lambda>alias. contains upper alias \<or> contains cleaned alias)
                               aliases)
                       ALIASES))"

section \<open>Errors and Python indexing\<close>

datatype py_error = IndexError | KeyError | ValueError | RequestException

text \<open>\<open>xs[i]\<close>: a negative index counts from the end, an index out of range raises.\<close>

definition py_index :: "'a list \<Rightarrow> int \<Rightarrow> py_error + 'a" where
  "py_index xs i =
     (if 0 \<le> i \<and> i < int (length xs) then Inr (xs ! nat i)
      else if i < 0 \<and> - int (length xs) \<le> i then Inr (xs ! nat (int (length xs) + i))
      else Inl IndexError)"

text \<open>\<open>d[k]\<close> on a dictionary: a missing key raises.\<close>

definition dict_get :: "('k \<rightharpoonup> 'v) \<Rightarrow> 'k \<Rightarrow> py_error + 'v" where
  "dict_get d k = (case d k of None \<Rightarrow> Inl KeyError | Some v \<Rightarrow> Inr v)"

text \<open>Sequencing of two computations that may raise: an exception of the first ends both.\<close>

definition and_then :: "py_error + 'a \<Rightarrow> ('a \<Rightarrow> py_error + 'b) \<Rightarrow> py_error + 'b" where
  "and_then m f = (case m of Inl e \<Rightarrow> Inl e | Inr x \<Rightarrow> f x)"

text \<open>A loop whose body may raise: the first exception ends it.\<close>

fun for_each :: "('s \<Rightarrow> 'a \<Rightarrow> py_error + 's) \<Rightarrow> 's \<Rightarrow> 'a list \<Rightarrow> py_error + 's" where
  "for_each body st [] = Inr st"
| "for_each body st (x # xs) =
     (case body st x of Inl e \<Rightarrow> Inl e | Inr st' \<Rightarrow> for_each body st' xs)"

text \<open>\<open>str(n)\<close> for a natural number, as the f-strings of the scripts format it.\<close>

fun str_nat :: "nat \<Rightarrow> string" where
  "str_nat n =
     (if n < 10 then [char_of (48 + n)] else str_nat (n div 10) @ [char_of (48 + n mod 10)])"

declare str_nat.simps [simp del]

text \<open>
  The interpreter (CPython 3.11 and later, with its default setting) refuses to convert
  between \<open>int\<close> and \<open>str\<close> when more than 4300 decimal digits are involved: \<open>int(s)\<close>
  raises ValueError when \<open>s\<close> has more than 4300 digits, leading zeros counted, and
  \<open>str(n)\<close>, which the f-strings call, raises ValueError when \<open>n\<close> has more than 4300
  digits. \<open>py_int\<close> and \<open>py_str\<close> are the two conversions with this limit; they are used
  wherever the scripts convert a group of the pattern \<open>\d+\<close>. The groups of the numbered
  format have at most three digits, and there the total \<open>int_of\<close> and \<open>str_nat\<close> are what
  the conversions compute.
\<close>

definition max_str_digits :: nat where
  "max_str_digits = 4300"

definition py_int :: "string \<Rightarrow> py_error + nat" where
  "py_int ds = (if length ds > max_str_digits then Inl ValueError else Inr (int_of ds))"

definition py_str :: "nat \<Rightarrow> py_error + string" where
  "py_str n = (if length (str_nat n) > max_str_digits then Inl ValueError else Inr (str_nat n))"

section \<open>The chapter and verse normalizer\<close>

text \<open>
  \<open>clean_book_lines\<close> of the split script. Its three local variables are the state of
  the loop; \<open>start_chapter\<close> is its nested function. Every conversion of a number may
  raise ValueError, which ends the function.
\<close>

record clean_state =
  normalized :: "string list"
  current_chapter :: "nat option"
  last_verse_in_chapter :: "nat option"

definition start_chapter :: "nat \<Rightarrow> clean_state \<Rightarrow> py_error + clean_state" where
  "start_chapter ch_num st =
     and_then (py_str ch_num)
       (\<lambda>s. Inr (st\<lparr>current_chapter := Some ch_num,
                     last_verse_in_chapter := None,
                     normalized := normalized st @ [''Chapter '' @ s]\<rparr>))"

text \<open>The two statements that end both verse branches:
  \<open>normalized.append(f"{v_num} {text}")\<close> and \<open>last_verse_in_chapter = v_num\<close>.\<close>

definition append_verse :: "nat \<Rightarrow> string \<Rightarrow> clean_state \<Rightarrow> py_error + clean_state" where
  "append_verse v_num text st =
     and_then (py_str v_num)
       (\<lambda>s. Inr (st\<lparr>normalized := normalized st @ [s @ '' '' @ text],
                     last_verse_in_chapter := Some v_num\<rparr>))"

definition clean_step :: "clean_state \<Rightarrow> string \<Rightarrow> py_error + clean_state" where
  "clean_step st ln =
     (let raw = strip ln
      in if raw = [] then Inr st
         else case CHAPTER_HEADING_RE raw of
           Some n \<Rightarrow> and_then (py_int n) (\<lambda>ch_num. start_chapter ch_num st)
         | None \<Rightarrow>
          (case VERSE_COLON_RE raw of
             Some (c, v, t) \<Rightarrow>
               and_then (py_int c) (\<lambda>ch_num.
               and_then (py_int v) (\<lambda>v_num.
                 let text = strip t
                 in and_then
                      (if current_chapter st \<noteq> Some ch_num then start_chapter ch_num st
                       else Inr st)
                      (append_verse v_num text)))
           | None \<Rightarrow>
            (case VERSE_SIMPLE_RE raw of
               Some (v, t) \<Rightarrow>
                 and_then (py_int v) (\<lambda>v_num.
                   let text = strip t
                   in and_then
                        (if current_chapter st = None then start_chapter 1 st
                         else if (case last_verse_in_chapter st of
                                    None \<Rightarrow> False
                                  | Some l \<Rightarrow> v_num = 1 \<and> l \<noteq> 0 \<and> l > 1)
                         then start_chapter
                                ((case current_chapter st of None \<Rightarrow> 0 | Some c \<Rightarrow> c) + 1) st
                         else Inr st)
                        (append_verse v_num text))
             | None \<Rightarrow>
                 if normalized st \<noteq> [] \<and> \<not> startswith (last (normalized st)) ''Chapter ''
                 then Inr (st\<lparr>normalized :=
                               butlast (normalized st) @ [last (normalized st) @ '' '' @ raw]\<rparr>)
                 else and_then
                        (if current_chapter st = None then start_chapter 1 st else Inr st)
                        (\<lambda>st1. Inr (st1\<lparr>normalized := normalized st1 @ [raw]\<rparr>)))))"

definition blank :: "string \<Rightarrow> bool" where
  "blank ln = (strip ln = [])"

definition clean_filtered :: "string list \<Rightarrow> string list" where
  "clean_filtered lines =
     (let filtered = map rstrip (filter (\<lambda>ln. \<not> matches (is_heading ln)) lines);
          filtered = dropWhile blank filtered
      in rev (dropWhile blank (rev filtered)))"

definition clean_init :: clean_state where
  "clean_init = \<lparr>normalized = [], current_chapter = None, last_verse_in_chapter = None\<rparr>"

definition clean_book_lines :: "string \<Rightarrow> string list \<Rightarrow> py_error + string list" where
  "clean_book_lines book lines =
     and_then (for_each clean_step clean_init (clean_filtered lines))
       (\<lambda>st. Inr (normalized st))"

section \<open>The numbered-format parser of the split script\<close>

text \<open>
  \<open>parse_numbered_format\<close>. The dictionary \<open>books_content\<close> and the four local variables
  are the state of the loop. \<open>last_verse_line_index\<close> is the pair of a book name and an
  index into that book's list, as in the source.
\<close>

record numbered_state =
  books_content :: "string \<rightharpoonup> string list"
  current_book_n :: "string option"
  current_chapter_n :: "nat option"
  last_chapter :: "nat option"
  last_verse_line_index :: "(string \<times> nat) option"

text \<open>\<open>int(raw.lstrip('0') or '0')\<close>.\<close>

definition int_lstrip0 :: "string \<Rightarrow> nat" where
  "int_lstrip0 raw =
     (let t = dropWhile (\<lambda>c. c = CHR ''0'') raw in int_of (if t = [] then ''0'' else t))"

text \<open>The part of the verse branch after the book has been aligned: from
  \<open>if current_book is None: continue\<close> to the branch's own \<open>continue\<close>.\<close>

definition place_verse :: "nat \<Rightarrow> nat \<Rightarrow> string \<Rightarrow> numbered_state \<Rightarrow> py_error + numbered_state" where
  "place_verse chapter verse text st =
     (case current_book_n st of
        None \<Rightarrow> Inr st
      | Some cb \<Rightarrow>
         (case dict_get (books_content st) cb of
            Inl e \<Rightarrow> Inl e
          | Inr lst \<Rightarrow>
              let opened = (current_chapter_n st \<noteq> Some chapter);
                  lst1 = (if opened then lst @ [''Chapter '' @ str_nat chapter] else lst);
                  lst2 = lst1 @ [str_nat verse @ '' '' @ text]
              in Inr (st\<lparr>current_chapter_n := Some chapter,
                          last_chapter := (if opened then Some chapter else last_chapter st),
                          books_content := (books_content st)(cb \<mapsto> lst2),
                          last_verse_line_index := Some (cb, length lst2 - 1)\<rparr>)))"

definition parse_numbered_step :: "numbered_state \<Rightarrow> string \<Rightarrow> py_error + numbered_state" where
  "parse_numbered_step st ln =
     (let ln_strip = strip ln
      in if ln_strip = [] then Inr st
         else case BOOK_HEADING_RE ln_strip of
           Some (g1, g2) \<Rightarrow>
             let book_num = int_of g1; name_part = strip g2;
                 matched_book =
                   (case book_by_name name_part of
                      Some b \<Rightarrow> Some b
                    | None \<Rightarrow>
                        if 1 \<le> book_num \<and> book_num \<le> length BOOKS
                        then Some (BOOKS ! (book_num - 1)) else None)
             in Inr (st\<lparr>current_book_n := matched_book, current_chapter_n := None,
                         last_chapter := None, last_verse_line_index := None\<rparr>)
         | None \<Rightarrow>
          (case NUM_VERSE_RE ln_strip of
             Some (g1, ch_raw, vs_raw, g4) \<Rightarrow>
               let book_num = int_of g1; text = strip g4;
                   chapter = int_lstrip0 ch_raw; verse = int_lstrip0 vs_raw
               in if current_book_n st = None \<or>
                     (1 \<le> book_num \<and> book_num \<le> length BOOKS \<and>
                      current_book_n st \<noteq> Some (BOOKS ! (book_num - 1)))
                  then case py_index BOOKS (int book_num - 1) of
                         Inl e \<Rightarrow> Inl e
                       | Inr b \<Rightarrow>
                           place_verse chapter verse text
                             (st\<lparr>current_book_n := Some b, current_chapter_n := None,
                                 last_chapter := None, last_verse_line_index := None\<rparr>)
                  else place_verse chapter verse text st
           | None \<Rightarrow>
              (case last_verse_line_index st of
                 None \<Rightarrow> Inr st
               | Some (bname, idx) \<Rightarrow>
                  (case dict_get (books_content st) bname of
                     Inl e \<Rightarrow> Inl e
                   | Inr lst \<Rightarrow>
                       if idx < length lst
                       then Inr (st\<lparr>books_content :=
                                     (books_content st)
                                       (bname \<mapsto> lst[idx := lst ! idx @ '' '' @ ln_strip])\<rparr>)
                       else Inl IndexError))))"

definition numbered_init :: numbered_state where
  "numbered_init =
     \<lparr>books_content = map_of (map (\<lambda>b. (b, [])) BOOKS), current_book_n = None,
      current_chapter_n = None, last_chapter = None, last_verse_line_index = None\<rparr>"

definition parse_numbered_format :: "string list \<Rightarrow> py_error + (string \<rightharpoonup> string list)" where
  "parse_numbered_format lines =
     (case for_each parse_numbered_step numbered_init lines of
        Inl e \<Rightarrow> Inl e
      | Inr st \<Rightarrow>
          Inr (map_option (\<lambda>lst. filter (\<lambda>t. t \<noteq> []) (map strip lst)) \<circ> books_content st))"

section \<open>The heading-based splitter\<close>

record heading_state =
  books_content_h :: "string \<rightharpoonup> string list"
  current :: "string option"
  heading_buffer :: "string list"

text \<open>\<open>line.rstrip("\n")\<close>.\<close>

definition rstrip_nl :: "string \<Rightarrow> string" where
  "rstrip_nl s = rev (dropWhile (\<lambda>c. c = CHR 0x0A) (rev s))"

definition split_step :: "heading_state \<Rightarrow> string \<Rightarrow> heading_state" where
  "split_step st line =
     (let book = is_heading line
      in if book \<noteq> None \<and> (current st = None \<or> book \<noteq> current st)
         then st\<lparr>current := book,
                 books_content_h :=
                   (case book of
                      None \<Rightarrow> books_content_h st
                    | Some b \<Rightarrow>
                       (case books_content_h st b of
                          None \<Rightarrow> (books_content_h st)(b \<mapsto> [])
                        | Some _ \<Rightarrow> books_content_h st)),
                 heading_buffer := [line]\<rparr>
         else case current st of
           None \<Rightarrow> st
         | Some cur \<Rightarrow>
             if heading_buffer st \<noteq> [] \<and> matches (is_heading line)
             then st\<lparr>heading_buffer := heading_buffer st @ [line]\<rparr>
             else st\<lparr>heading_buffer := [],
                     books_content_h :=
                       (case books_content_h st cur of
                          None \<Rightarrow> books_content_h st
                        | Some lst \<Rightarrow> (books_content_h st)(cur \<mapsto> lst @ [rstrip_nl line]))\<rparr>)"

definition heading_init :: heading_state where
  "heading_init = \<lparr>books_content_h = Map.empty, current = None, heading_buffer = []\<rparr>"

definition split_books :: "string list \<Rightarrow> py_error + (string \<rightharpoonup> string list)" where
  "split_books lines =
     (if detect_numbered_format lines then parse_numbered_format lines
      else Inr (books_content_h (foldl split_step heading_init lines)))"

text \<open>The loop of the split script's \<open>main\<close> over the canon: the lines it writes for each
  book, \<open>clean_book_lines(book, books_content.get(book, []))\<close>. An exception of the
  normalizer ends the loop.\<close>

definition write_book ::
    "(string \<rightharpoonup> string list) \<Rightarrow> (string \<times> string list) list \<Rightarrow> string
       \<Rightarrow> py_error + (string \<times> string list) list" where
  "write_book bc written book =
     and_then (clean_book_lines book (case bc book of None \<Rightarrow> [] | Some ls \<Rightarrow> ls))
       (\<lambda>cleaned. Inr (written @ [(book, cleaned)]))"

definition normalized_books :: "string list \<Rightarrow> py_error + (string \<times> string list) list" where
  "normalized_books lines =
     and_then (split_books lines) (\<lambda>bc. for_each (write_book bc) [] BOOKS)"

section \<open>The structured model of the export script\<close>

text \<open>
  The dictionaries \<open>Verse\<close>, \<open>Chapter\<close> and \<open>BookJSON\<close>. The parsers keep references to
  the verse and the chapter they appended last and change them in place; a reference is
  modelled by the position of the object in the structure that owns it.
\<close>

record Verse =
  verse_number :: nat
  verse_text :: string

record Chapter =
  chapter_number :: nat
  verses :: "Verse list"

record BookJSON =
  book :: string
  book_order :: nat
  chapters :: "Chapter list"

text \<open>\<open>BOOK_INDEX = {b: i+1 for i, b in enumerate(BOOKS)}\<close>.\<close>

definition BOOK_INDEX :: "string \<rightharpoonup> nat" where
  "BOOK_INDEX = foldl (\<lambda>m (i, b). m(b \<mapsto> i + 1)) Map.empty (enumerate 0 BOOKS)"

subsection \<open>The per-book file parser\<close>

text \<open>
  \<open>parse_book_txt\<close>, given the stem of the path and the lines of the file. The two
  conversions \<open>int(m_ch.group(1))\<close> and \<open>int(m_vs.group(1))\<close> may raise ValueError.
  \<open>current_chapter\<close> refers to a chapter of \<open>chapters\<close> (by its index) and \<open>last_verse\<close>
  to a verse (by the index of its chapter and its index there).
\<close>

record txt_state =
  chapters_t :: "Chapter list"
  current_chapter_t :: "nat option"
  last_verse_t :: "(nat \<times> nat) option"

definition append_text :: "string \<Rightarrow> Verse \<Rightarrow> Verse" where
  "append_text ln v = v\<lparr>verse_text := verse_text v @ '' '' @ ln\<rparr>"

definition txt_step :: "txt_state \<Rightarrow> string \<Rightarrow> py_error + txt_state" where
  "txt_step st ln0 =
     (let ln = strip ln0
      in if ln = [] then Inr st
         else case CHAPTER_RE ln of
           Some g \<Rightarrow>
             and_then (py_int g)
               (\<lambda>num. Inr (st\<lparr>chapters_t :=
                                 chapters_t st @ [\<lparr>chapter_number = num, verses = []\<rparr>],
                               current_chapter_t := Some (length (chapters_t st)),
                               last_verse_t := None\<rparr>))
         | None \<Rightarrow>
            (case (VERSE_RE ln, current_chapter_t st) of
               (Some (g1, g2), Some ci) \<Rightarrow>
                 and_then (py_int g1)
                   (\<lambda>vnum.
                      let verse = \<lparr>verse_number = vnum, verse_text = strip g2\<rparr>;
                          ch = chapters_t st ! ci
                      in Inr (st\<lparr>chapters_t :=
                                    (chapters_t st)[ci := ch\<lparr>verses := verses ch @ [verse]\<rparr>],
                                  last_verse_t := Some (ci, length (verses ch))\<rparr>))
             | _ \<Rightarrow>
                (case last_verse_t st of
                   None \<Rightarrow> Inr st
                 | Some (ci, vi) \<Rightarrow>
                     let ch = chapters_t st ! ci
                     in Inr (st\<lparr>chapters_t :=
                                   (chapters_t st)
                                     [ci := ch\<lparr>verses :=
                                              (verses ch)[vi := append_text ln (verses ch ! vi)]\<rparr>]\<rparr>))))"

definition txt_init :: txt_state where
  "txt_init = \<lparr>chapters_t = [], current_chapter_t = None, last_verse_t = None\<rparr>"

definition parse_book_txt :: "string \<Rightarrow> string list \<Rightarrow> py_error + BookJSON" where
  "parse_book_txt stem lines =
     (let book_name = (case find (\<lambda>b. filter (\<lambda>c. c \<noteq> CHR '' '') b = stem) BOOKS of
                         Some b \<Rightarrow> b | None \<Rightarrow> stem)
      in and_then (for_each txt_step txt_init lines)
           (\<lambda>st. Inr \<lparr>book = book_name,
                       book_order = (case BOOK_INDEX book_name of None \<Rightarrow> 0 | Some i \<Rightarrow> i),
                       chapters = chapters_t st\<rparr>))"

subsection \<open>The numbered-format parser\<close>

text \<open>
  \<open>parse_master_numbered\<close>. \<open>last_verse\<close> refers to a verse of \<open>books\<close>: the name of
  its book, the index of its chapter and its index in the chapter.
\<close>

record master_state =
  books :: "string \<rightharpoonup> BookJSON"
  current_book :: "string option"
  current_chapter_num :: "nat option"
  last_verse :: "(string \<times> nat \<times> nat) option"

definition master_step :: "master_state \<Rightarrow> string \<Rightarrow> py_error + master_state" where
  "master_step st ln0 =
     (let ln = rstrip ln0
      in if strip ln = [] then Inr st
         else case BOOK_HEADING_RE (strip ln) of
           Some (g1, g2) \<Rightarrow>
             let num = int_of g1; name_part = strip g2;
                 match = (case book_by_name name_part of
                            Some b \<Rightarrow> Some b
                          | None \<Rightarrow>
                              if 1 \<le> num \<and> num \<le> length BOOKS
                              then Some (BOOKS ! (num - 1)) else None)
             in Inr (st\<lparr>current_book := match, current_chapter_num := None,
                         last_verse := None\<rparr>)
         | None \<Rightarrow>
          (case NUM_VERSE_RE ln of
             Some (g1, ch_raw, vs_raw, g4) \<Rightarrow>
               let book_num = int_of g1; text = strip g4;
                   chapter = int_lstrip0 ch_raw; verse = int_lstrip0 vs_raw
               in (case py_index BOOKS (int book_num - 1) of
                     Inl e \<Rightarrow> Inl e
                   | Inr target \<Rightarrow>
                      let st1 = (if current_book st = None \<or> current_book st \<noteq> Some target
                                 then st\<lparr>current_book := Some target,
                                         current_chapter_num := None, last_verse := None\<rparr>
                                 else st)
                      in (case current_book st1 of
                            None \<Rightarrow> Inl KeyError
                          | Some cb \<Rightarrow>
                             (case dict_get (books st1) cb of
                                Inl e \<Rightarrow> Inl e
                              | Inr bstruct \<Rightarrow>
                                 let chs = (if current_chapter_num st1 \<noteq> Some chapter
                                            then chapters bstruct @
                                                   [\<lparr>chapter_number = chapter, verses = []\<rparr>]
                                            else chapters bstruct)
                                 in if chs = [] then Inl IndexError
                                    else
                                      let ci = length chs - 1;
                                          ch_struct = chs ! ci;
                                          verse_obj = \<lparr>verse_number = verse, verse_text = text\<rparr>;
                                          chs1 = chs[ci := ch_struct\<lparr>verses :=
                                                                verses ch_struct @ [verse_obj]\<rparr>]
                                      in Inr (st1\<lparr>books :=
                                                    (books st1)(cb \<mapsto> bstruct\<lparr>chapters := chs1\<rparr>),
                                                  current_chapter_num := Some chapter,
                                                  last_verse :=
                                                    Some (cb, ci, length (verses ch_struct))\<rparr>))))
           | None \<Rightarrow>
              (case last_verse st of
                 None \<Rightarrow> Inr st
               | Some (b, ci, vi) \<Rightarrow>
                  (case books st b of
                     None \<Rightarrow> Inr st
                   | Some bstruct \<Rightarrow>
                       let ch = chapters bstruct ! ci;
                           ch1 = ch\<lparr>verses :=
                                    (verses ch)[vi := append_text (strip ln) (verses ch ! vi)]\<rparr>
                       in Inr (st\<lparr>books :=
                                    (books st)
                                      (b \<mapsto> bstruct\<lparr>chapters := (chapters bstruct)[ci := ch1]\<rparr>)\<rparr>)))))"

text \<open>The initial dictionary has an entry for every book of the canon; \<open>BOOK_INDEX[b]\<close> is
  defined for each of them.\<close>

definition master_init :: master_state where
  "master_init =
     \<lparr>books = foldl (\<lambda>m b. m(b \<mapsto> \<lparr>book = b,
                                      book_order = (case BOOK_INDEX b of None \<Rightarrow> 0 | Some i \<Rightarrow> i),
                                      chapters = []\<rparr>))
                Map.empty BOOKS,
      current_book = None, current_chapter_num = None, last_verse = None\<rparr>"

text \<open>The last loop: \<open>books[b]['chapters'] = [c for c in chapters if c['verses']]\<close>.\<close>

definition trim_empty :: "(string \<rightharpoonup> BookJSON) \<Rightarrow> string \<Rightarrow> (string \<rightharpoonup> BookJSON)" where
  "trim_empty m b =
     (case m b of
        None \<Rightarrow> m
      | Some bk \<Rightarrow> m(b \<mapsto> bk\<lparr>chapters := filter (\<lambda>c. verses c \<noteq> []) (chapters bk)\<rparr>))"

definition parse_master_numbered :: "string list \<Rightarrow> py_error + (string \<rightharpoonup> BookJSON)" where
  "parse_master_numbered lines =
     (case for_each master_step master_init lines of
        Inl e \<Rightarrow> Inl e
      | Inr st \<Rightarrow> Inr (foldl trim_empty (books st) BOOKS))"

section \<open>The sink\<close>
















text \<open>The entry of a book in a parser's result, or the exception the parser raised.\<close>

definition entry_of :: "py_error + (string \<rightharpoonup> 'v) \<Rightarrow> string \<Rightarrow> py_error + 'v option" where
  "entry_of r b = (case r of Inl e \<Rightarrow> Inl e | Inr m \<Rightarrow> Inr (m b))"

definition raised :: "py_error + 'a \<Rightarrow> py_error option" where
  "raised r = (case r of Inl e \<Rightarrow> Some e | Inr _ \<Rightarrow> None)"

section \<open>Notions used in the statements\<close>

text \<open>A line carries the book number \<open>k\<close> when it is a numbered verse line whose first
  group reads \<open>k\<close>. A line has its book number in range when indexing the canon with it,
  as the parser does, does not fail.\<close>

definition numbered_for :: "nat \<Rightarrow> string \<Rightarrow> bool" where
  "numbered_for k ln =
     (case NUM_VERSE_RE (rstrip ln) of
        None \<Rightarrow> False
      | Some (g1, g2, g3, g4) \<Rightarrow> int_of g1 = k)"

definition book_number_in_range :: "string \<Rightarrow> bool" where
  "book_number_in_range ln =
     (case NUM_VERSE_RE (rstrip ln) of
        None \<Rightarrow> True
      | Some (g1, g2, g3, g4) \<Rightarrow> int_of g1 \<le> length BOOKS)"

text \<open>The three stages of the verse branch of \<open>master_step\<close>: the state after the
  book has been aligned, the chapter list after the chapter has been opened, and the state
  after the verse has been appended.\<close>

definition align :: "master_state \<Rightarrow> string \<Rightarrow> master_state" where
  "align st target =
     (if current_book st = None \<or> current_book st \<noteq> Some target
      then st\<lparr>current_book := Some target, current_chapter_num := None, last_verse := None\<rparr>
      else st)"

definition opened :: "master_state \<Rightarrow> nat \<Rightarrow> BookJSON \<Rightarrow> Chapter list" where
  "opened st0 chapter bstruct =
     (if current_chapter_num st0 \<noteq> Some chapter
      then chapters bstruct @ [\<lparr>chapter_number = chapter, verses = []\<rparr>]
      else chapters bstruct)"

definition placed ::
    "master_state \<Rightarrow> string \<Rightarrow> BookJSON \<Rightarrow> Chapter list \<Rightarrow> nat \<Rightarrow> Verse \<Rightarrow> master_state" where
  "placed st0 target bk chs chapter v =
     st0\<lparr>books := (books st0)
            (target \<mapsto> bk\<lparr>chapters :=
               chs[length chs - 1 :=
                     (chs ! (length chs - 1))
                       \<lparr>verses := verses (chs ! (length chs - 1)) @ [v]\<rparr>]\<rparr>),
         current_chapter_num := Some chapter,
         last_verse := Some (target, length chs - 1, length (verses (chs ! (length chs - 1))))\<rparr>"

text \<open>What the last loop of \<open>parse_master_numbered\<close> does to one book.\<close>

definition trim :: "BookJSON \<Rightarrow> BookJSON" where
  "trim bk = bk\<lparr>chapters := filter (\<lambda>c. verses c \<noteq> []) (chapters bk)\<rparr>"

text \<open>Invariants of the loop of \<open>parse_master_numbered\<close>: every canon book has an entry
  with its name and order; an open chapter lies in the current book, whose chapter list is
  then not empty.\<close>

definition header_ok :: "(string \<rightharpoonup> BookJSON) \<Rightarrow> bool" where
  "header_ok m =
     (\<forall>b \<in> set BOOKS. \<exists>bk. m b = Some bk \<and> book bk = b \<and>
        book_order bk = (case BOOK_INDEX b of None \<Rightarrow> 0 | Some i \<Rightarrow> i))"

definition chapter_open_ok :: "master_state \<Rightarrow> bool" where
  "chapter_open_ok st =
     (current_chapter_num st \<noteq> None \<longrightarrow>
        (\<exists>cb bk. current_book st = Some cb \<and> books st cb = Some bk \<and> chapters bk \<noteq> []))"

text \<open>The lines the split script writes for one book.\<close>

definition book_output ::
    "py_error + (string \<times> string list) list \<Rightarrow> string \<Rightarrow> string list option" where
  "book_output r b = (case r of Inl e \<Rightarrow> None | Inr xs \<Rightarrow> map_of xs b)"

text \<open>An open chapter of the per-book parser is the last chapter of its list.\<close>

definition txt_open_ok :: "txt_state \<Rightarrow> bool" where
  "txt_open_ok st =
     (case current_chapter_t st of None \<Rightarrow> True | Some ci \<Rightarrow> Suc ci = length (chapters_t st))"



text \<open>The lines the normalizer produces are of three kinds: a chapter marker
  \<open>Chapter N\<close>, a verse line \<open>V text\<close>, and a line kept as it is (a line that matched no
  pattern when no verse line was there to take it).\<close>

datatype entry = ChapterLine nat | VerseLine nat string | LooseLine string

fun render :: "entry \<Rightarrow> string" where
  "render (ChapterLine n) = ''Chapter '' @ str_nat n"
| "render (VerseLine v t) = str_nat v @ '' '' @ t"
| "render (LooseLine s) = s"

definition clean_text :: "string \<Rightarrow> bool" where
  "clean_text t = (t \<noteq> [] \<and> \<not> isspace (hd t) \<and> \<not> isspace (last t) \<and> CHR 0x0A \<notin> set t)"

text \<open>A number that \<open>str\<close> converts.\<close>

definition short :: "nat \<Rightarrow> bool" where
  "short n = (length (str_nat n) \<le> max_str_digits)"

definition entry_ok :: "entry \<Rightarrow> bool" where
  "entry_ok e =
     (case e of
        ChapterLine n \<Rightarrow> short n
      | VerseLine v t \<Rightarrow> short v \<and> clean_text t
      | LooseLine s \<Rightarrow> clean_text s)"

text \<open>The shape of the normalizer's output: it starts with a chapter marker, and a line
  kept as it is comes directly after a line that starts with \<open>Chapter \<close>. The flag of
  \<open>shape_from\<close> says whether the line before the list allows such a line.\<close>

fun shape_from :: "bool \<Rightarrow> entry list \<Rightarrow> bool" where
  "shape_from p [] = True"
| "shape_from p (e # es) =
     (entry_ok e \<and> (case e of LooseLine s \<Rightarrow> p | _ \<Rightarrow> True) \<and>
      shape_from (startswith (render e) ''Chapter '') es)"

definition shape :: "entry list \<Rightarrow> bool" where
  "shape es =
     (case es of
        [] \<Rightarrow> True
      | ChapterLine n # es' \<Rightarrow> shape_from True es
      | _ \<Rightarrow> False)"

text \<open>No verse numbered 1 follows, in its chapter, a verse numbered above 1.\<close>

fun no_reset :: "nat option \<Rightarrow> entry list \<Rightarrow> bool" where
  "no_reset lv [] = True"
| "no_reset lv (ChapterLine n # es) = no_reset None es"
| "no_reset lv (VerseLine v t # es) =
     (\<not> (v = 1 \<and> (case lv of None \<Rightarrow> False | Some l \<Rightarrow> 1 < l)) \<and> no_reset (Some v) es)"
| "no_reset lv (LooseLine s # es) = no_reset lv es"

text \<open>A line kept as it is is stable when it is no book heading and matches none of the
  three patterns of the normalizer.\<close>

definition stable :: "entry \<Rightarrow> bool" where
  "stable e =
     (case e of
        LooseLine s \<Rightarrow>
          is_heading s = None \<and> CHAPTER_HEADING_RE s = None \<and> VERSE_COLON_RE s = None \<and>
          VERSE_SIMPLE_RE s = None
      | _ \<Rightarrow> True)"

definition settled :: "entry list \<Rightarrow> bool" where
  "settled es = (no_reset None es \<and> list_all stable es)"

definition normal_form :: "entry list \<Rightarrow> bool" where
  "normal_form es = (shape es \<and> settled es)"

text \<open>The number of the last verse after the last chapter marker.\<close>

fun lv_after :: "nat option \<Rightarrow> entry list \<Rightarrow> nat option" where
  "lv_after lv [] = lv"
| "lv_after lv (ChapterLine n # es) = lv_after None es"
| "lv_after lv (VerseLine v t # es) = lv_after (Some v) es"
| "lv_after lv (LooseLine s # es) = lv_after lv es"

text \<open>A plain line has no line break in it and is a book heading, blank, a chapter marker
  or a bare verse line.\<close>

definition plain_line :: "string \<Rightarrow> bool" where
  "plain_line ln =
     (CHR 0x0A \<notin> set ln \<and>
      (matches (is_heading ln) \<or> strip ln = [] \<or> matches (CHAPTER_HEADING_RE (strip ln)) \<or>
       matches (VERSE_SIMPLE_RE (strip ln))))"

text \<open>A line without a line break in it. The lines \<open>main\<close> passes to the pipeline are
  the elements of \<open>text.splitlines()\<close>, which have none.\<close>

definition line_free :: "string \<Rightarrow> bool" where
  "line_free ln = (CHR 0x0A \<notin> set ln)"

text \<open>The state of the normalizer's loop after it has produced the entries \<open>es\<close>.\<close>

definition tracks :: "clean_state \<Rightarrow> entry list \<Rightarrow> bool" where
  "tracks st es =
     (normalized st = map render es \<and> shape es \<and>
      (current_chapter st = None \<longleftrightarrow> es = []) \<and>
      last_verse_in_chapter st = lv_after None es)"

section \<open>Example inputs\<close>

definition small_blob :: "string list" where
  "small_blob =
     [''BOOK 01 Genesis'',
      ''01:001:001 In the beginning God created the heaven and the earth.'',
      ''01:001:002 And the earth was without form, and void;'',
      ''01:001:003 And God said, Let there be light: and there was light.'',
      ''BOOK 02 Exodus'',
      ''02:001:001 Now these are the names of the children of Israel,'',
      ''02:001:002 Reuben, Simeon, Levi, and Judah,'']"

definition verse_only_file :: "string list" where
  "verse_only_file = [''1 In the beginning God created'', ''the heaven and the earth.'', ''2 And the earth was without form'']"

definition after_one_verse :: clean_state where
  "after_one_verse =
     \<lparr>normalized = [''Chapter 1'', ''1 A''], current_chapter = Some 1,
      last_verse_in_chapter = Some 1\<rparr>"

definition after_two_verses :: clean_state where
  "after_two_verses =
     \<lparr>normalized = [''Chapter 1'', ''1 A'', ''2 B''], current_chapter = Some 1,
      last_verse_in_chapter = Some 2\<rparr>"

definition reset_example :: "string list" where
  "reset_example = [''1:5 And God called the light Day'', ''1:1 In the beginning'']"

definition spec_example :: "string list" where
  "spec_example = [''1 A'', ''2 B'', ''1 C'']"



definition colon_example :: "string list" where
  "colon_example = [''1:1 In the'', ''beginning'', ''1:2 And'', ''2:1 Thus'']"

definition colon_example_entries :: "entry list" where
  "colon_example_entries =
     [ChapterLine 1, VerseLine 1 ''In the beginning'', VerseLine 2 ''And'', ChapterLine 2,
      VerseLine 1 ''Thus'']"

definition preface_example :: "string list" where
  "preface_example = [''In the beginning'', ''1 God created'']"

definition preface_example_entries :: "entry list" where
  "preface_example_entries =
     [ChapterLine 1, LooseLine ''In the beginning'', VerseLine 1 ''God created'']"

definition long_verse_line :: string where
  "long_verse_line = replicate 4301 (CHR ''1'') @ '' A''"

section \<open>Properties of the format detector\<close>

lemma sum_list_ones: "sum_list (map (\<lambda>ln. 1::nat) xs) = length xs"
  by (induction xs) simp_all

lemma detect_export_counts:
  "detect_numbered_format_export lines \<longleftrightarrow>
     200 < length (filter (\<lambda>ln. matches (NUM_VERSE_RE ln)) lines) \<and>
     30 < length (filter (\<lambda>ln. matches (BOOK_HEADING_RE ln)) lines)"
  unfolding detect_numbered_format_export_def Let_def sum_list_ones ..

text \<open>The counters only grow, so the loop's early return fires on some prefix exactly when
  the totals at the end are over the thresholds.\<close>

lemma detect_loop_counts:
  "detect_loop vm bm lns \<longleftrightarrow>
     200 < vm + length (filter (\<lambda>ln. matches (NUM_VERSE_RE ln)) lns) \<and>
     30 < bm + length (filter (\<lambda>ln. matches (BOOK_HEADING_RE ln)) lns) \<and>
     lns \<noteq> []"
  by (induction lns arbitrary: vm bm) (auto simp: Let_def)

lemma detect_split_counts:
  "detect_numbered_format lines \<longleftrightarrow>
     200 < length (filter (\<lambda>ln. matches (NUM_VERSE_RE ln)) lines) \<and>
     30 < length (filter (\<lambda>ln. matches (BOOK_HEADING_RE ln)) lines)"
proof (cases lines)
  case Nil
  then show ?thesis by (simp add: detect_numbered_format_def)
next
  case (Cons ln lns)
  then show ?thesis
    unfolding detect_numbered_format_def detect_loop_counts by simp
qed

text \<open>
  Claim C4. For every sequence of input lines, each of the two detectors answers True
  exactly when more than 200 lines match the numbered-verse pattern and more than 30 lines
  match the BOOK-heading pattern; an input with 5 numbered-verse lines and 2 BOOK headings
  is therefore sent to the heading-based pipeline.
\<close>

theorem detector_thresholds:
  "(detect_numbered_format_export lines \<longleftrightarrow>
      200 < length (filter (\<lambda>ln. matches (NUM_VERSE_RE ln)) lines) \<and>
      30 < length (filter (\<lambda>ln. matches (BOOK_HEADING_RE ln)) lines)) \<and>
   (detect_numbered_format lines \<longleftrightarrow>
      200 < length (filter (\<lambda>ln. matches (NUM_VERSE_RE ln)) lines) \<and>
      30 < length (filter (\<lambda>ln. matches (BOOK_HEADING_RE ln)) lines)) \<and>
   (length (filter (\<lambda>ln. matches (NUM_VERSE_RE ln)) lines) = 5 \<and>
    length (filter (\<lambda>ln. matches (BOOK_HEADING_RE ln)) lines) = 2 \<longrightarrow>
      \<not> detect_numbered_format_export lines \<and> \<not> detect_numbered_format lines)"
  using detect_export_counts [of lines] detect_split_counts [of lines] by simp

theorem detector_thresholds_witness:
  "length (filter (\<lambda>ln. matches (NUM_VERSE_RE ln)) small_blob) = 5 \<and>
   length (filter (\<lambda>ln. matches (BOOK_HEADING_RE ln)) small_blob) = 2 \<and>
   \<not> detect_numbered_format_export small_blob \<and> \<not> detect_numbered_format small_blob"
proof -
  have v: "length (filter (\<lambda>ln. matches (NUM_VERSE_RE ln)) small_blob) = 5"
    by code_simp
  have b: "length (filter (\<lambda>ln. matches (BOOK_HEADING_RE ln)) small_blob) = 2"
    by code_simp
  from v b detector_thresholds [of small_blob] show ?thesis by simp
qed

text \<open>
  Claim C9. The two detectors agree on every sequence of input lines: the loop of the split
  script, which returns True in the middle of the scan, gives the same answer as the two
  full counts of the export script.
\<close>

theorem detectors_equivalent:
  "detect_numbered_format lines = detect_numbered_format_export lines"
  by (simp only: detect_split_counts detect_export_counts)

section \<open>The heading of Revelation\<close>

text \<open>
  Claim C1. The heading \<open>THE REVELATION OF ST. JOHN THE DIVINE\<close> is meant to be
  recognised as the book Revelation. The detector walks the alias table in canon order and
  returns at the first alias that occurs in the line; \<open>JOHN\<close>, the alias of the
  forty-third book, occurs in the line, so the detector answers John before the aliases
  of Revelation are looked at.
\<close>

theorem heading_revelation_is_john:
  "is_heading ''THE REVELATION OF ST. JOHN THE DIVINE'' = Some ''John''"
  by code_simp

section \<open>Facts about the patterns\<close>

lemma lower_char_digit: "isdigit d \<Longrightarrow> lower_char d = d"
  unfolding isdigit_def lower_char_def by auto

lemma digit_not_space: "isdigit d \<Longrightarrow> \<not> isspace d"
  unfolding isdigit_def isspace_def by auto

lemma ws_then_Some: "ws_then k n s = Some x \<Longrightarrow> 0 < n"
  by (cases n) simp_all

lemma spaces_then_Some: "spaces_then k s = Some x \<Longrightarrow> s \<noteq> [] \<and> isspace (hd s)"
proof -
  assume "spaces_then k s = Some x"
  then have "0 < length (takeWhile isspace s)"
    unfolding spaces_then_def by (rule ws_then_Some)
  then show ?thesis by (cases s) (auto split: if_splits)
qed

lemma VERSE_SIMPLE_RE_digit:
  "VERSE_SIMPLE_RE s = Some (v, t) \<Longrightarrow> s \<noteq> [] \<and> isdigit (hd s)"
  unfolding VERSE_SIMPLE_RE_def Let_def by (cases s) (auto split: if_splits)

lemma NUM_VERSE_RE_digit:
  "NUM_VERSE_RE s = Some r \<Longrightarrow> s \<noteq> [] \<and> isdigit (hd s)"
  by (induction s rule: NUM_VERSE_RE.induct) (auto split: if_splits)

lemma CHAPTER_RE_digit: "s \<noteq> [] \<Longrightarrow> isdigit (hd s) \<Longrightarrow> CHAPTER_RE s = None"
  unfolding CHAPTER_RE_def lower_def
  by (cases s) (auto simp: lower_char_digit isdigit_def)

lemma CHAPTER_HEADING_RE_digit: "s \<noteq> [] \<Longrightarrow> isdigit (hd s) \<Longrightarrow> CHAPTER_HEADING_RE s = None"
  unfolding CHAPTER_HEADING_RE_def lower_def
  by (cases s) (auto simp: lower_char_digit isdigit_def)

lemma BOOK_HEADING_RE_digit: "s \<noteq> [] \<Longrightarrow> isdigit (hd s) \<Longrightarrow> BOOK_HEADING_RE s = None"
  unfolding BOOK_HEADING_RE_def lower_def
  by (cases s) (auto simp: lower_char_digit isdigit_def)

lemma VERSE_COLON_RE_simple:
  "VERSE_SIMPLE_RE s = Some (v, t) \<Longrightarrow> VERSE_COLON_RE s = None"
  unfolding VERSE_SIMPLE_RE_def VERSE_COLON_RE_def Let_def
  by (auto split: if_splits list.splits dest!: spaces_then_Some simp: isspace_def)

lemma rstrip_Cons: "\<not> isspace c \<Longrightarrow> rstrip (c # cs) = c # rstrip cs"
  unfolding rstrip_def by (simp add: dropWhile_append)

lemma strip_nonspace_hd:
  "s \<noteq> [] \<Longrightarrow> \<not> isspace (hd s) \<Longrightarrow> strip s \<noteq> [] \<and> hd (strip s) = hd s"
  unfolding strip_def lstrip_def by (cases s) (auto simp: rstrip_Cons)

lemma VERSE_RE_line:
  assumes "VERSE_RE (strip ln) = Some (g1, g2)"
  shows "strip ln \<noteq> []" and "CHAPTER_RE (strip ln) = None"
  using assms VERSE_SIMPLE_RE_digit [of "strip ln" g1 g2] CHAPTER_RE_digit [of "strip ln"]
  by (auto simp: VERSE_RE_def)

lemma numbered_line_no_heading:
  assumes "NUM_VERSE_RE (rstrip vl) = Some r"
  shows "strip (rstrip vl) \<noteq> []" and "BOOK_HEADING_RE (strip (rstrip vl)) = None"
proof -
  from NUM_VERSE_RE_digit [OF assms]
  have d: "rstrip vl \<noteq> []" "isdigit (hd (rstrip vl))" by simp_all
  then have "strip (rstrip vl) \<noteq> [] \<and> hd (strip (rstrip vl)) = hd (rstrip vl)"
    by (intro strip_nonspace_hd) (simp_all add: digit_not_space)
  with d show "strip (rstrip vl) \<noteq> []" and "BOOK_HEADING_RE (strip (rstrip vl)) = None"
    by (simp_all add: BOOK_HEADING_RE_digit)
qed

lemma str_nat_one: "str_nat (Suc 0) = ''1''"
  by code_simp

section \<open>The numbered-format parser of the export script\<close>

lemma align_current: "current_book (align st target) = Some target"
  by (auto simp: align_def)

lemma align_books: "books (align st target) = books st"
  by (simp add: align_def)

lemma master_step_verse_eq:
  assumes "NUM_VERSE_RE (rstrip vl) = Some (g1, g2, g3, g4)"
    and "py_index BOOKS (int (int_of g1) - 1) = Inr target"
    and "books st target = Some bk"
  shows "master_step st vl =
           (if opened (align st target) (int_lstrip0 g2) bk = [] then Inl IndexError
            else Inr (placed (align st target) target bk
                        (opened (align st target) (int_lstrip0 g2) bk) (int_lstrip0 g2)
                        \<lparr>verse_number = int_lstrip0 g3, verse_text = strip g4\<rparr>))"
proof -
  note nh = numbered_line_no_heading [OF assms(1)]
  have cb: "current_book (align st target) = Some target" by (rule align_current)
  have bk: "books (align st target) target = Some bk" by (simp add: align_books assms(3))
  show ?thesis
    using assms(1,2) nh cb bk
    unfolding master_step_def Let_def align_def [symmetric] opened_def placed_def
    by (simp add: dict_get_def)
qed

lemma master_step_verse:
  assumes "NUM_VERSE_RE (rstrip vl) = Some (g1, g2, g3, g4)" and "master_step st vl = Inr st1"
  obtains target bk where
    "py_index BOOKS (int (int_of g1) - 1) = Inr target"
    "books st target = Some bk"
    "opened (align st target) (int_lstrip0 g2) bk \<noteq> []"
    "st1 = placed (align st target) target bk
             (opened (align st target) (int_lstrip0 g2) bk) (int_lstrip0 g2)
             \<lparr>verse_number = int_lstrip0 g3, verse_text = strip g4\<rparr>"
proof -
  note nh = numbered_line_no_heading [OF assms(1)]
  from assms nh obtain target where
    t: "py_index BOOKS (int (int_of g1) - 1) = Inr target"
    by (cases "py_index BOOKS (int (int_of g1) - 1)") (auto simp: master_step_def Let_def)
  have cb: "current_book (align st target) = Some target" by (rule align_current)
  have "master_step st vl = Inl KeyError" if "books st target = None"
    using assms(1) nh t cb that
    unfolding master_step_def Let_def align_def [symmetric]
    by (simp add: dict_get_def align_books)
  with assms(2) obtain bk where bk: "books st target = Some bk"
    by (cases "books st target") auto
  note step = master_step_verse_eq [OF assms(1) t bk]
  from step assms(2) have ne: "opened (align st target) (int_lstrip0 g2) bk \<noteq> []"
    by (auto split: if_splits)
  from step assms(2) ne show ?thesis
    by (intro that [OF t bk ne]) simp
qed

subsection \<open>The last loop and the initial dictionaries\<close>

lemma trim_trim: "trim (trim bk) = trim bk"
  by (simp add: trim_def)

lemma trim_empty_apply:
  "trim_empty m x b = (if b = x then map_option trim (m b) else m b)"
  by (auto simp: trim_empty_def trim_def split: option.splits)

lemma trim_fold_apply:
  "foldl trim_empty m bs b = (if b \<in> set bs then map_option trim (m b) else m b)"
proof (induction bs arbitrary: m)
  case Nil
  show ?case by simp
next
  case (Cons x bs)
  have "foldl trim_empty m (x # bs) b = foldl trim_empty (trim_empty m x) bs b"
    by simp
  also have "\<dots> = (if b \<in> set bs then map_option trim (trim_empty m x b) else trim_empty m x b)"
    by (rule Cons.IH)
  also have "\<dots> = (if b \<in> set (x # bs) then map_option trim (m b) else m b)"
    unfolding trim_empty_apply by (cases "m b") (auto simp: trim_trim)
  finally show ?case .
qed

lemma index_fold_notin:
  "b \<notin> set xs \<Longrightarrow> foldl (\<lambda>m (i, b). m(b \<mapsto> i + 1)) m0 (enumerate n xs) b = m0 b"
  by (induction xs arbitrary: n m0) auto

lemma index_fold_nth:
  "distinct xs \<Longrightarrow> j < length xs \<Longrightarrow>
     foldl (\<lambda>m (i, b). m(b \<mapsto> i + 1)) m0 (enumerate n xs) (xs ! j) = Some (n + j + 1)"
proof (induction xs arbitrary: n m0 j)
  case Nil
  then show ?case by simp
next
  case (Cons x xs)
  have unfold: "foldl (\<lambda>m (i, b). m(b \<mapsto> i + 1)) m0 (enumerate n (x # xs)) =
      foldl (\<lambda>m (i, b). m(b \<mapsto> i + 1)) (m0(x \<mapsto> n + 1)) (enumerate (Suc n) xs)"
    by (simp del: fun_upd_apply)
  show ?case
  proof (cases j)
    case 0
    from Cons.prems have "x \<notin> set xs" by simp
    then have "foldl (\<lambda>m (i, b). m(b \<mapsto> i + 1)) (m0(x \<mapsto> n + 1)) (enumerate (Suc n) xs) x =
        (m0(x \<mapsto> n + 1)) x"
      by (rule index_fold_notin)
    also have "\<dots> = Some (n + 0 + 1)" by simp
    finally show ?thesis unfolding unfold 0 nth_Cons_0 .
  next
    case (Suc k)
    from Cons.prems Suc have "distinct xs" "k < length xs" by simp_all
    then have "foldl (\<lambda>m (i, b). m(b \<mapsto> i + 1)) (m0(x \<mapsto> n + 1)) (enumerate (Suc n) xs) (xs ! k) =
        Some (Suc n + k + 1)"
      by (rule Cons.IH)
    moreover have "Suc n + k + 1 = n + Suc k + 1" by simp
    ultimately show ?thesis unfolding unfold Suc nth_Cons_Suc by (simp only:)
  qed
qed

lemma BOOKS_length: "length BOOKS = 66"
  by (simp add: BOOKS_def)

lemma BOOKS_distinct: "distinct BOOKS"
  by code_simp

lemma BOOK_INDEX_nth: "i < length BOOKS \<Longrightarrow> BOOK_INDEX (BOOKS ! i) = Some (i + 1)"
  unfolding BOOK_INDEX_def using index_fold_nth [OF BOOKS_distinct, of i Map.empty 0] by simp

lemma init_fold_apply:
  "foldl (\<lambda>m b. m(b \<mapsto> f b)) m0 bs b = (if b \<in> set bs then Some (f b) else m0 b)"
  by (induction bs arbitrary: m0) auto

subsection \<open>Invariants of the parsing loop\<close>

lemma py_index_in_set: "py_index xs i = Inr x \<Longrightarrow> x \<in> set xs"
  by (auto simp: py_index_def split: if_splits)

lemma py_index_total:
  "- int (length xs) \<le> i \<Longrightarrow> i < int (length xs) \<Longrightarrow> \<exists>x. py_index xs i = Inr x"
  by (auto simp: py_index_def)

lemma for_each_invariant:
  assumes "for_each body st xs = Inr st'" and "P st"
    and "\<And>s x s'. P s \<Longrightarrow> x \<in> set xs \<Longrightarrow> body s x = Inr s' \<Longrightarrow> P s'"
  shows "P st'"
  using assms
proof (induction xs arbitrary: st)
  case Nil
  then show ?case by simp
next
  case (Cons x xs)
  from Cons.prems(1) obtain s1 where s1: "body st x = Inr s1" "for_each body s1 xs = Inr st'"
    by (auto split: sum.splits)
  have p1: "P s1" using Cons.prems(3) [of st x s1] Cons.prems(2) s1(1) by simp
  show ?case
  proof (rule Cons.IH [OF s1(2) p1])
    fix s y s'
    assume "P s" "y \<in> set xs" "body s y = Inr s'"
    then show "P s'" using Cons.prems(3) [of s y s'] by simp
  qed
qed

lemma for_each_total:
  assumes "P st"
    and "\<And>s x. P s \<Longrightarrow> x \<in> set xs \<Longrightarrow> \<exists>s'. body s x = Inr s' \<and> P s'"
  shows "\<exists>st'. for_each body st xs = Inr st'"
  using assms
proof (induction xs arbitrary: st)
  case Nil
  then show ?case by simp
next
  case (Cons x xs)
  from Cons.prems obtain s1 where s1: "body st x = Inr s1" "P s1" by fastforce
  from Cons.IH [OF s1(2)] Cons.prems(2) obtain st' where "for_each body s1 xs = Inr st'"
    by auto
  with s1 show ?case by simp
qed

lemma master_step_cases:
  assumes "master_step st ln = Inr st1"
  obtains (same) "st1 = st"
  | (heading) match where
      "st1 = st\<lparr>current_book := match, current_chapter_num := None, last_verse := None\<rparr>"
  | (verse) g1 g2 g3 g4 where "NUM_VERSE_RE (rstrip ln) = Some (g1, g2, g3, g4)"
  | (cont) b bk ci ch1 where "books st b = Some bk"
      "st1 = st\<lparr>books := (books st)(b \<mapsto> bk\<lparr>chapters := (chapters bk)[ci := ch1]\<rparr>)\<rparr>"
proof (cases "strip (rstrip ln) = []")
  case True
  with assms have "st1 = st" by (simp add: master_step_def Let_def)
  then show ?thesis by (rule same)
next
  case ne: False
  show ?thesis
  proof (cases "BOOK_HEADING_RE (strip (rstrip ln))")
    case (Some r)
    with assms ne show ?thesis
      by (cases r) (auto simp: master_step_def Let_def intro: heading)
  next
    case nh: None
    show ?thesis
    proof (cases "NUM_VERSE_RE (rstrip ln)")
      case (Some r)
      then show ?thesis by (cases r) (auto intro: verse)
    next
      case nv: None
      show ?thesis
      proof (cases "last_verse st")
        case None
        with assms ne nh nv have "st1 = st" by (simp add: master_step_def Let_def)
        then show ?thesis by (rule same)
      next
        case (Some p)
        obtain b ci vi where p: "p = (b, ci, vi)" by (cases p)
        show ?thesis
        proof (cases "books st b")
          case None
          with assms ne nh nv Some p have "st1 = st" by (simp add: master_step_def Let_def)
          then show ?thesis by (rule same)
        next
          case bk: (Some bk)
          with assms ne nh nv Some p
          have "st1 = st\<lparr>books := (books st)
                  (b \<mapsto> bk\<lparr>chapters := (chapters bk)
                     [ci := (chapters bk ! ci)
                        \<lparr>verses := (verses (chapters bk ! ci))
                           [vi := append_text (strip (rstrip ln))
                                    (verses (chapters bk ! ci) ! vi)]\<rparr>]\<rparr>)\<rparr>"
            by (simp add: master_step_def Let_def)
          with bk show ?thesis by (rule cont)
        qed
      qed
    qed
  qed
qed

lemma header_step:
  assumes "master_step st ln = Inr st1" and "header_ok (books st)"
  shows "header_ok (books st1)"
  using assms(1)
proof (cases rule: master_step_cases)
  case same
  with assms(2) show ?thesis by simp
next
  case (heading match)
  with assms(2) show ?thesis by simp
next
  case (verse g1 g2 g3 g4)
  from master_step_verse [OF verse assms(1)] obtain target bk where
    bk: "books st target = Some bk" and
    st1: "st1 = placed (align st target) target bk
             (opened (align st target) (int_lstrip0 g2) bk) (int_lstrip0 g2)
             \<lparr>verse_number = int_lstrip0 g3, verse_text = strip g4\<rparr>"
    by blast
  show ?thesis
    unfolding header_ok_def
  proof
    fix b assume "b \<in> set BOOKS"
    with assms(2) obtain bk' where "books st b = Some bk'" "book bk' = b"
        "book_order bk' = (case BOOK_INDEX b of None \<Rightarrow> 0 | Some i \<Rightarrow> i)"
      unfolding header_ok_def by blast
    with bk show "\<exists>bk. books st1 b = Some bk \<and> book bk = b \<and>
        book_order bk = (case BOOK_INDEX b of None \<Rightarrow> 0 | Some i \<Rightarrow> i)"
      unfolding st1 placed_def by (cases "b = target") (simp_all add: align_books)
  qed
next
  case (cont b' bk ci ch1)
  show ?thesis
    unfolding header_ok_def
  proof
    fix b assume "b \<in> set BOOKS"
    with assms(2) obtain bk' where "books st b = Some bk'" "book bk' = b"
        "book_order bk' = (case BOOK_INDEX b of None \<Rightarrow> 0 | Some i \<Rightarrow> i)"
      unfolding header_ok_def by blast
    with cont show "\<exists>bk. books st1 b = Some bk \<and> book bk = b \<and>
        book_order bk = (case BOOK_INDEX b of None \<Rightarrow> 0 | Some i \<Rightarrow> i)"
      by (cases "b = b'") simp_all
  qed
qed

lemma open_step:
  assumes "master_step st ln = Inr st1" and "chapter_open_ok st"
  shows "chapter_open_ok st1"
  using assms(1)
proof (cases rule: master_step_cases)
  case same
  with assms(2) show ?thesis by simp
next
  case (heading match)
  then show ?thesis by (simp add: chapter_open_ok_def)
next
  case (verse g1 g2 g3 g4)
  from master_step_verse [OF verse assms(1)] obtain target bk where
    ne: "opened (align st target) (int_lstrip0 g2) bk \<noteq> []" and
    st1: "st1 = placed (align st target) target bk
             (opened (align st target) (int_lstrip0 g2) bk) (int_lstrip0 g2)
             \<lparr>verse_number = int_lstrip0 g3, verse_text = strip g4\<rparr>"
    by blast
  show ?thesis
    unfolding chapter_open_ok_def st1 placed_def using ne
    by (simp add: align_current)
next
  case (cont b' bk ci ch1)
  show ?thesis
  proof (cases "current_chapter_num st")
    case None
    with cont show ?thesis by (simp add: chapter_open_ok_def)
  next
    case (Some c)
    with assms(2) obtain cb bk' where
      "current_book st = Some cb" "books st cb = Some bk'" "chapters bk' \<noteq> []"
      unfolding chapter_open_ok_def by auto
    with cont show ?thesis
      unfolding chapter_open_ok_def by (cases "cb = b'") simp_all
  qed
qed

lemma total_step:
  assumes "header_ok (books st)" and "chapter_open_ok st" and "book_number_in_range ln"
  shows "\<exists>st1. master_step st ln = Inr st1"
proof (cases "NUM_VERSE_RE (rstrip ln)")
  case None
  then show ?thesis
    by (auto simp: master_step_def Let_def split: option.splits)
next
  case (Some r)
  obtain g1 g2 g3 g4 where r: "r = (g1, g2, g3, g4)" by (cases r)
  from assms(3) Some r have "int_of g1 \<le> length BOOKS"
    by (simp add: book_number_in_range_def)
  then obtain target where t: "py_index BOOKS (int (int_of g1) - 1) = Inr target"
    using py_index_total [of BOOKS "int (int_of g1) - 1"] by (auto simp: BOOKS_length)
  from py_index_in_set [OF t] assms(1) obtain bk where bk: "books st target = Some bk"
    unfolding header_ok_def by blast
  have "opened (align st target) (int_lstrip0 g2) bk \<noteq> []"
  proof (cases "current_chapter_num (align st target) = Some (int_lstrip0 g2)")
    case False
    then show ?thesis by (simp add: opened_def)
  next
    case True
    then have same: "align st target = st" "current_book st = Some target"
      by (auto simp: align_def split: if_splits)
    with True assms(2) bk have "chapters bk \<noteq> []"
      by (auto simp: chapter_open_ok_def)
    with True show ?thesis by (simp add: opened_def)
  qed
  with master_step_verse_eq [OF Some [unfolded r] t bk] show ?thesis by simp
qed

lemma master_init_header: "header_ok (books master_init)"
  unfolding header_ok_def master_init_def by (simp add: init_fold_apply)

lemma master_init_open: "chapter_open_ok master_init"
  by (simp add: chapter_open_ok_def master_init_def)

lemma master_loop_header:
  assumes "for_each master_step master_init lines = Inr st"
  shows "header_ok (books st)"
  by (rule for_each_invariant [OF assms, where P = "\<lambda>s. header_ok (books s)"])
     (simp_all add: master_init_header header_step)

lemma master_loop_total:
  assumes "\<forall>ln \<in> set lines. book_number_in_range ln"
  shows "\<exists>st. for_each master_step master_init lines = Inr st"
proof (rule for_each_total [where P = "\<lambda>s. header_ok (books s) \<and> chapter_open_ok s"])
  show "header_ok (books master_init) \<and> chapter_open_ok master_init"
    by (simp add: master_init_header master_init_open)
next
  fix s x
  assume p: "header_ok (books s) \<and> chapter_open_ok s" and x: "x \<in> set lines"
  with assms have "book_number_in_range x" by simp
  with p obtain s' where s': "master_step s x = Inr s'" using total_step by blast
  with p have "header_ok (books s') \<and> chapter_open_ok s'"
    using header_step open_step by blast
  with s' show "\<exists>s'. master_step s x = Inr s' \<and> header_ok (books s') \<and> chapter_open_ok s'"
    by blast
qed

section \<open>Verse lines with a book number outside the canon\<close>

lemma book_zero_loop:
  "(case for_each master_step master_init [''00:001:001 In the beginning''] of
      Inl e \<Rightarrow> Inl e
    | Inr st \<Rightarrow> Inr (books st ''Revelation'')) =
   Inr (Some \<lparr>book = ''Revelation'', book_order = 66,
              chapters = [\<lparr>chapter_number = 1,
                           verses = [\<lparr>verse_number = 1,
                                      verse_text = ''In the beginning''\<rparr>]\<rparr>]\<rparr>)"
  by code_simp

lemma book_zero_export:
  "entry_of (parse_master_numbered [''00:001:001 In the beginning'']) ''Revelation'' =
     Inr (Some \<lparr>book = ''Revelation'', book_order = 66,
                chapters = [\<lparr>chapter_number = 1,
                             verses = [\<lparr>verse_number = 1,
                                        verse_text = ''In the beginning''\<rparr>]\<rparr>]\<rparr>)"
proof -
  have r: "''Revelation'' \<in> set BOOKS" by (simp add: BOOKS_def)
  show ?thesis
    using book_zero_loop r
    by (auto simp: entry_of_def parse_master_numbered_def trim_fold_apply trim_def
             split: sum.splits)
qed

lemma book_out_of_range_split:
  "raised (parse_master_numbered [''67:001:001 In the beginning'']) = Some IndexError \<and>
   raised (parse_numbered_format [''67:001:001 In the beginning'']) = Some IndexError \<and>
   entry_of (parse_numbered_format [''00:001:001 In the beginning'']) ''Revelation'' =
     Inr (Some [''Chapter 1'', ''1 In the beginning'']) \<and>
   entry_of (parse_numbered_format [''BOOK 01 Genesis'', ''67:001:001 In the beginning''])
       ''Genesis'' =
     Inr (Some [''Chapter 1'', ''1 In the beginning''])"
  by code_simp

text \<open>
  Claim C2. A verse line whose book number is outside 1..66 is meant to be dropped. Both
  parsers index the canon with \<open>book_num - 1\<close> without a range check on the path a line
  without a preceding heading takes: for 67 the index is out of range and the parser ends
  with IndexError; for 00 the index is -1 and the verse is placed in the last book. After a
  heading the split script keeps the current book and places the verse there.
\<close>

theorem out_of_range_book_number_not_dropped:
  "raised (parse_master_numbered [''67:001:001 In the beginning'']) = Some IndexError \<and>
   raised (parse_numbered_format [''67:001:001 In the beginning'']) = Some IndexError \<and>
   entry_of (parse_master_numbered [''00:001:001 In the beginning'']) ''Revelation'' =
     Inr (Some \<lparr>book = ''Revelation'', book_order = 66,
                chapters = [\<lparr>chapter_number = 1,
                             verses = [\<lparr>verse_number = 1,
                                        verse_text = ''In the beginning''\<rparr>]\<rparr>]\<rparr>) \<and>
   entry_of (parse_numbered_format [''00:001:001 In the beginning'']) ''Revelation'' =
     Inr (Some [''Chapter 1'', ''1 In the beginning'']) \<and>
   entry_of (parse_numbered_format [''BOOK 01 Genesis'', ''67:001:001 In the beginning''])
       ''Genesis'' =
     Inr (Some [''Chapter 1'', ''1 In the beginning''])"
  using book_zero_export book_out_of_range_split by simp

section \<open>Conversions and sequencing\<close>

lemma and_then_Inr [simp]: "and_then (Inr x) f = f x"
  by (simp add: and_then_def)

lemma and_then_Inl [simp]: "and_then (Inl e) f = Inl e"
  by (simp add: and_then_def)

lemma and_then_eq_Inr:
  "and_then m f = Inr y \<longleftrightarrow> (\<exists>x. m = Inr x \<and> f x = Inr y)"
  by (cases m) simp_all

lemma digit_chars:
  "char_of (48::nat) = CHR ''0''" "char_of (49::nat) = CHR ''1''"
  "char_of (50::nat) = CHR ''2''" "char_of (51::nat) = CHR ''3''"
  "char_of (52::nat) = CHR ''4''" "char_of (53::nat) = CHR ''5''"
  "char_of (54::nat) = CHR ''6''" "char_of (55::nat) = CHR ''7''"
  "char_of (56::nat) = CHR ''8''" "char_of (57::nat) = CHR ''9''"
  by code_simp+

lemma digit_char:
  assumes "d < 10"
  shows "isdigit (char_of (48 + d))" and "digit_val (char_of (48 + d)) = d"
proof -
  from assms have "d \<in> {0, 1, 2, 3, 4, 5, 6, 7, 8, 9}" by auto
  then show "isdigit (char_of (48 + d))"
    by (auto simp: isdigit_def digit_chars)
  from assms show "digit_val (char_of (48 + d)) = d"
    by (simp add: digit_val_def)
qed

lemma int_of_snoc: "int_of (ds @ [c]) = 10 * int_of ds + digit_val c"
  by (simp add: int_of_def)

lemma str_nat_digits: "list_all isdigit (str_nat n) \<and> str_nat n \<noteq> []"
proof (induction n rule: str_nat.induct)
  case (1 n)
  show ?case
  proof (cases "n < 10")
    case True
    then show ?thesis by (subst str_nat.simps, subst str_nat.simps) (simp add: digit_char)
  next
    case False
    with 1 show ?thesis
      by (subst str_nat.simps, subst (2) str_nat.simps) (simp add: digit_char)
  qed
qed

lemma int_of_str_nat: "int_of (str_nat n) = n"
proof (induction n rule: str_nat.induct)
  case (1 n)
  show ?case
  proof (cases "n < 10")
    case True
    then show ?thesis
      by (subst str_nat.simps) (simp add: int_of_def digit_char)
  next
    case False
    with 1 show ?thesis
      by (subst str_nat.simps) (simp add: int_of_snoc digit_char)
  qed
qed

lemma isdigit_val: "isdigit c \<Longrightarrow> digit_val c < 10"
  unfolding isdigit_def digit_val_def by auto

lemma str_nat_small: "d < 10 \<Longrightarrow> str_nat d = [char_of (48 + d)]"
  by (subst str_nat.simps) simp

lemma str_nat_step:
  assumes "d < 10" and "0 < m"
  shows "str_nat (10 * m + d) = str_nat m @ [char_of (48 + d)]"
proof -
  from assms have "\<not> 10 * m + d < 10" "(10 * m + d) div 10 = m" "(10 * m + d) mod 10 = d"
    by simp_all
  then show ?thesis by (subst str_nat.simps) simp
qed

lemma length_str_nat_snoc:
  assumes "d < 10"
  shows "length (str_nat (10 * m + d)) \<le> Suc (length (str_nat m))"
proof (cases "m = 0")
  case True
  with assms show ?thesis by (simp add: str_nat_small)
next
  case False
  with assms show ?thesis by (simp add: str_nat_step)
qed

lemma length_str_nat_int_of:
  "list_all isdigit ds \<Longrightarrow> ds \<noteq> [] \<Longrightarrow> length (str_nat (int_of ds)) \<le> length ds"
proof (induction ds rule: rev_induct)
  case Nil
  then show ?case by simp
next
  case (snoc c ds)
  then have c: "digit_val c < 10" by (simp add: isdigit_val)
  show ?case
  proof (cases "ds = []")
    case True
    with c show ?thesis by (simp add: int_of_def str_nat_small)
  next
    case False
    with snoc have "length (str_nat (int_of ds)) \<le> length ds" by simp
    with length_str_nat_snoc [OF c, of "int_of ds"] show ?thesis
      by (simp add: int_of_snoc)
  qed
qed

lemma py_int_ok: "length ds \<le> max_str_digits \<Longrightarrow> py_int ds = Inr (int_of ds)"
  by (simp add: py_int_def)

lemma py_int_fail: "max_str_digits < length ds \<Longrightarrow> py_int ds = Inl ValueError"
  by (simp add: py_int_def)

lemma py_str_ok: "length (str_nat n) \<le> max_str_digits \<Longrightarrow> py_str n = Inr (str_nat n)"
  by (simp add: py_str_def)

lemma py_str_int_of:
  assumes "list_all isdigit ds" and "ds \<noteq> []" and "length ds \<le> max_str_digits"
  shows "py_str (int_of ds) = Inr (str_nat (int_of ds))"
  using length_str_nat_int_of [OF assms(1,2)] assms(3) by (simp add: py_str_def)

lemma py_str_one: "py_str 1 = Inr ''1''"
  by (simp add: py_str_def max_str_digits_def str_nat_small digit_chars)

lemma py_int_str_nat:
  "length (str_nat n) \<le> max_str_digits \<Longrightarrow> py_int (str_nat n) = Inr n"
  by (simp add: py_int_def int_of_str_nat)

lemma ws_then_result: "ws_then k n s = Some x \<Longrightarrow> \<exists>m. k (drop m s) = Some x"
  by (induction n) (auto split: option.splits)

lemma spaces_then_result: "spaces_then k s = Some x \<Longrightarrow> \<exists>m. k (drop m s) = Some x"
  unfolding spaces_then_def by (rule ws_then_result)

lemma takeWhile_digits: "list_all isdigit (takeWhile isdigit s)"
  by (simp add: list_all_iff) (meson set_takeWhileD)

lemma digits_eol_group: "digits_eol r = Some g \<Longrightarrow> list_all isdigit g \<and> g \<noteq> []"
  by (auto simp: digits_eol_def Let_def takeWhile_digits split: if_splits)

lemma VERSE_SIMPLE_RE_group:
  "VERSE_SIMPLE_RE s = Some (v, t) \<Longrightarrow> list_all isdigit v \<and> v \<noteq> []"
  by (auto simp: VERSE_SIMPLE_RE_def Let_def takeWhile_digits split: if_splits)

lemma for_each_append:
  "for_each body st (xs @ ys) = and_then (for_each body st xs) (\<lambda>s. for_each body s ys)"
  by (induction xs arbitrary: st) (simp_all split: sum.splits)

section \<open>The per-book file parser\<close>

lemma txt_step_verse_no_chapter:
  assumes "current_chapter_t st = None" and "VERSE_RE (strip ln) = Some (g1, g2)"
  shows "txt_step st ln =
           Inr (case last_verse_t st of
                  None \<Rightarrow> st
                | Some (ci, vi) \<Rightarrow>
                    st\<lparr>chapters_t :=
                         (chapters_t st)
                           [ci := (chapters_t st ! ci)
                                    \<lparr>verses := (verses (chapters_t st ! ci))
                                        [vi := append_text (strip ln)
                                                 (verses (chapters_t st ! ci) ! vi)]\<rparr>]\<rparr>)"
  using assms VERSE_RE_line [OF assms(2)]
  by (simp add: txt_step_def Let_def split: option.splits)

lemma txt_step_init_no_chapter:
  assumes "CHAPTER_RE (strip ln) = None"
  shows "txt_step txt_init ln = Inr txt_init"
  using assms by (simp add: txt_step_def txt_init_def Let_def split: option.splits prod.splits)

lemma txt_loop_no_chapter:
  "\<forall>ln \<in> set pre. CHAPTER_RE (strip ln) = None \<Longrightarrow> for_each txt_step txt_init pre = Inr txt_init"
  by (induction pre) (simp_all add: txt_step_init_no_chapter)

text \<open>
  Claim C10. In \<open>parse_book_txt\<close> a line of the verse pattern met while no chapter is
  open is not made a verse: it is treated as a continuation line, appended to the verse
  \<open>last_verse\<close> refers to if there is one and dropped otherwise. The lines before the first
  chapter marker leave the parser in its initial state, so they contribute nothing to the
  result, and a file with no chapter marker at all parses to an empty list of chapters.
\<close>

theorem verse_line_before_chapter_marker:
  "(current_chapter_t st = None \<and> VERSE_RE (strip ln) = Some (g1, g2) \<longrightarrow>
      txt_step st ln =
        Inr (case last_verse_t st of
               None \<Rightarrow> st
             | Some (ci, vi) \<Rightarrow>
                 st\<lparr>chapters_t :=
                      (chapters_t st)
                        [ci := (chapters_t st ! ci)
                                 \<lparr>verses := (verses (chapters_t st ! ci))
                                     [vi := append_text (strip ln)
                                              (verses (chapters_t st ! ci) ! vi)]\<rparr>]\<rparr>)) \<and>
   ((\<forall>ln \<in> set pre. CHAPTER_RE (strip ln) = None) \<longrightarrow>
      for_each txt_step txt_init pre = Inr txt_init \<and>
      parse_book_txt stem (pre @ rest) = parse_book_txt stem rest \<and>
      (\<exists>bk. parse_book_txt stem pre = Inr bk \<and> chapters bk = []))"
proof (intro conjI impI)
  assume "current_chapter_t st = None \<and> VERSE_RE (strip ln) = Some (g1, g2)"
  then show "txt_step st ln =
        Inr (case last_verse_t st of
               None \<Rightarrow> st
             | Some (ci, vi) \<Rightarrow>
                 st\<lparr>chapters_t :=
                      (chapters_t st)
                        [ci := (chapters_t st ! ci)
                                 \<lparr>verses := (verses (chapters_t st ! ci))
                                     [vi := append_text (strip ln)
                                              (verses (chapters_t st ! ci) ! vi)]\<rparr>]\<rparr>)"
    using txt_step_verse_no_chapter by blast
next
  assume a: "\<forall>ln \<in> set pre. CHAPTER_RE (strip ln) = None"
  then show f: "for_each txt_step txt_init pre = Inr txt_init" by (rule txt_loop_no_chapter)
  then show "parse_book_txt stem (pre @ rest) = parse_book_txt stem rest"
    by (simp add: parse_book_txt_def for_each_append)
  from f show "\<exists>bk. parse_book_txt stem pre = Inr bk \<and> chapters bk = []"
    by (simp add: parse_book_txt_def txt_init_def Let_def)
qed

theorem verse_line_before_chapter_marker_witness:
  "VERSE_RE (strip ''1 In the beginning God created'') =
     Some (''1'', ''In the beginning God created'') \<and>
   txt_step txt_init ''1 In the beginning God created'' = Inr txt_init \<and>
   list_all (\<lambda>ln. CHAPTER_RE (strip ln) = None) verse_only_file \<and>
   for_each txt_step txt_init verse_only_file = Inr txt_init \<and>
   parse_book_txt ''Genesis'' (verse_only_file @ [''Chapter 1'', ''1 In the beginning'']) =
     parse_book_txt ''Genesis'' [''Chapter 1'', ''1 In the beginning''] \<and>
   parse_book_txt ''Genesis'' verse_only_file =
     Inr \<lparr>book = ''Genesis'', book_order = 1, chapters = []\<rparr>"
proof -
  have v: "VERSE_RE (strip ''1 In the beginning God created'') =
      Some (''1'', ''In the beginning God created'')"
    by code_simp
  have lc: "list_all (\<lambda>ln. CHAPTER_RE (strip ln) = None) verse_only_file"
    by code_simp
  then have c: "\<forall>ln \<in> set verse_only_file. CHAPTER_RE (strip ln) = None"
    by (simp add: list_all_iff)
  have i: "current_chapter_t txt_init = None" "last_verse_t txt_init = None"
    by (simp_all add: txt_init_def)
  note t = verse_line_before_chapter_marker
    [of txt_init "''1 In the beginning God created''" "''1''" "''In the beginning God created''"
        verse_only_file "''Genesis''" "[''Chapter 1'', ''1 In the beginning'']"]
  from t c obtain bk where bk: "parse_book_txt ''Genesis'' verse_only_file = Inr bk"
      "chapters bk = []"
    by blast
  have "map_sum id book (parse_book_txt ''Genesis'' verse_only_file) = Inr ''Genesis''"
       "map_sum id book_order (parse_book_txt ''Genesis'' verse_only_file) = Inr 1"
    by code_simp+
  with bk have "bk = \<lparr>book = ''Genesis'', book_order = 1, chapters = []\<rparr>"
    by (cases bk) simp
  with t v c lc i bk show ?thesis by simp
qed

section \<open>A verse line and its continuation\<close>

subsection \<open>In the per-book file parser\<close>

lemma txt_step_open_ok:
  assumes "txt_step st ln = Inr st1" and "txt_open_ok st"
  shows "txt_open_ok st1"
  using assms
  by (auto simp: txt_step_def txt_open_ok_def Let_def and_then_eq_Inr
           split: if_splits option.splits prod.splits)

lemma txt_loop_open_ok:
  assumes "for_each txt_step txt_init pre = Inr st"
  shows "txt_open_ok st"
  by (rule for_each_invariant [OF assms, where P = txt_open_ok])
     (simp_all add: txt_open_ok_def txt_init_def txt_step_open_ok [unfolded txt_open_ok_def])

lemma update_last: "xs \<noteq> [] \<Longrightarrow> xs[length xs - Suc 0 := y] = butlast xs @ [y]"
  by (cases xs rule: rev_cases) simp_all

lemma txt_verse_then_continuation:
  assumes "txt_open_ok st" and "current_chapter_t st \<noteq> None"
    and "VERSE_RE (strip vl) = Some (g1, g2)" and "length g1 \<le> max_str_digits"
    and "strip cl \<noteq> []" and "CHAPTER_RE (strip cl) = None" and "VERSE_RE (strip cl) = None"
  shows "\<exists>st2. and_then (txt_step st vl) (\<lambda>s. txt_step s cl) = Inr st2 \<and>
           chapters_t st2 =
             butlast (chapters_t st) @
               [(last (chapters_t st))
                  \<lparr>verses := verses (last (chapters_t st)) @
                     [\<lparr>verse_number = int_of g1,
                       verse_text = strip g2 @ '' '' @ strip cl\<rparr>]\<rparr>]"
proof -
  from assms(1,2) obtain ci where ci: "current_chapter_t st = Some ci"
      "Suc ci = length (chapters_t st)"
    by (auto simp: txt_open_ok_def)
  then have ne: "chapters_t st \<noteq> []" and l: "ci = length (chapters_t st) - 1" by auto
  have nth: "chapters_t st ! ci = last (chapters_t st)"
    using ne l by (simp add: last_conv_nth)
  let ?ch = "last (chapters_t st)"
  let ?st1 = "st\<lparr>chapters_t :=
                  (chapters_t st)[ci := ?ch\<lparr>verses := verses ?ch @
                     [\<lparr>verse_number = int_of g1, verse_text = strip g2\<rparr>]\<rparr>],
                last_verse_t := Some (ci, length (verses ?ch))\<rparr>"
  have s1: "txt_step st vl = Inr ?st1"
    using ci(1) assms(3) VERSE_RE_line [OF assms(3)] py_int_ok [OF assms(4)] nth
    by (simp add: txt_step_def Let_def)
  have s2: "txt_step ?st1 cl =
      Inr (?st1\<lparr>chapters_t :=
                  (chapters_t st)[ci := ?ch\<lparr>verses := verses ?ch @
                     [\<lparr>verse_number = int_of g1,
                       verse_text = strip g2 @ '' '' @ strip cl\<rparr>]\<rparr>]\<rparr>)"
    using assms(5,6,7) ci(2)
    by (simp add: txt_step_def Let_def append_text_def)
  show ?thesis
    unfolding s1 using s2 ne l by (simp add: update_last)
qed

subsection \<open>In the numbered-format parser\<close>

lemma master_loop_open:
  assumes "for_each master_step master_init lines = Inr st"
  shows "chapter_open_ok st"
  by (rule for_each_invariant [OF assms, where P = chapter_open_ok])
     (simp_all add: master_init_open open_step)

lemma opened_nonempty:
  assumes "chapter_open_ok st" and "books st target = Some bk"
  shows "opened (align st target) chapter bk \<noteq> []"
proof (cases "current_chapter_num (align st target) = Some chapter")
  case False
  then show ?thesis by (simp add: opened_def)
next
  case True
  then have same: "align st target = st" "current_book st = Some target"
    by (auto simp: align_def split: if_splits)
  with True assms have "chapters bk \<noteq> []"
    by (auto simp: chapter_open_ok_def)
  with True show ?thesis by (simp add: opened_def)
qed

lemma last_update_last: "xs \<noteq> [] \<Longrightarrow> last (xs[length xs - Suc 0 := y]) = y"
  by (simp add: update_last)

lemma master_verse_then_continuation:
  assumes "header_ok (books st)" and "chapter_open_ok st"
    and "NUM_VERSE_RE (rstrip nl) = Some (n1, n2, n3, n4)"
    and "py_index BOOKS (int (int_of n1) - 1) = Inr target"
    and "strip (rstrip cl) \<noteq> []" and "BOOK_HEADING_RE (strip (rstrip cl)) = None"
    and "NUM_VERSE_RE (rstrip cl) = None"
  shows "\<exists>st2 bk2. and_then (master_step st nl) (\<lambda>s. master_step s cl) = Inr st2 \<and>
           books st2 target = Some bk2 \<and> book bk2 = target \<and> chapters bk2 \<noteq> [] \<and>
           verses (last (chapters bk2)) \<noteq> [] \<and>
           last (verses (last (chapters bk2))) =
             \<lparr>verse_number = int_lstrip0 n3,
              verse_text = strip n4 @ '' '' @ strip (rstrip cl)\<rparr>"
proof -
  from py_index_in_set [OF assms(4)] assms(1) obtain bk where
    bk: "books st target = Some bk" and nm: "book bk = target"
    unfolding header_ok_def by blast
  let ?chs = "opened (align st target) (int_lstrip0 n2) bk"
  let ?ci = "length ?chs - Suc 0"
  let ?vs = "verses (?chs ! ?ci)"
  let ?v = "\<lparr>verse_number = int_lstrip0 n3, verse_text = strip n4\<rparr>"
  let ?st1 = "placed (align st target) target bk ?chs (int_lstrip0 n2) ?v"
  have ne: "?chs \<noteq> []" by (rule opened_nonempty [OF assms(2) bk])
  have s1: "master_step st nl = Inr ?st1"
    using master_step_verse_eq [OF assms(3,4) bk] ne by simp
  have lv: "last_verse ?st1 = Some (target, ?ci, length ?vs)"
    by (simp add: placed_def)
  have b1: "books ?st1 target =
      Some (bk\<lparr>chapters := ?chs[?ci := (?chs ! ?ci)\<lparr>verses := ?vs @ [?v]\<rparr>]\<rparr>)"
    by (simp add: placed_def)
  let ?bk2 = "bk\<lparr>chapters := ?chs[?ci := (?chs ! ?ci)\<lparr>verses :=
                 ?vs @ [append_text (strip (rstrip cl)) ?v]\<rparr>]\<rparr>"
  have s2: "master_step ?st1 cl = Inr (?st1\<lparr>books := (books ?st1)(target \<mapsto> ?bk2)\<rparr>)"
    using assms(5,6,7) lv b1 ne
    by (simp add: master_step_def Let_def del: fun_upd_apply)
  have "chapters ?bk2 \<noteq> []" using ne by simp
  moreover have "last (chapters ?bk2) =
      (?chs ! ?ci)\<lparr>verses := ?vs @ [append_text (strip (rstrip cl)) ?v]\<rparr>"
    using ne by (simp add: last_update_last)
  ultimately show ?thesis
    unfolding s1 using s2 nm by (simp add: append_text_def)
qed

lemma last_filter_keep:
  "xs \<noteq> [] \<Longrightarrow> P (last xs) \<Longrightarrow> filter P xs \<noteq> [] \<and> last (filter P xs) = last xs"
  by (cases xs rule: rev_cases) simp_all

lemma master_lines_verse_then_continuation:
  assumes "for_each master_step master_init pre = Inr st"
    and "NUM_VERSE_RE (rstrip nl) = Some (n1, n2, n3, n4)"
    and "py_index BOOKS (int (int_of n1) - 1) = Inr target"
    and "strip (rstrip cl) \<noteq> []" and "BOOK_HEADING_RE (strip (rstrip cl)) = None"
    and "NUM_VERSE_RE (rstrip cl) = None"
  shows "\<exists>m bk. parse_master_numbered (pre @ [nl, cl]) = Inr m \<and> m target = Some bk \<and>
           book bk = target \<and> chapters bk \<noteq> [] \<and>
           last (verses (last (chapters bk))) =
             \<lparr>verse_number = int_lstrip0 n3,
              verse_text = strip n4 @ '' '' @ strip (rstrip cl)\<rparr>"
proof -
  from master_verse_then_continuation
         [OF master_loop_header [OF assms(1)] master_loop_open [OF assms(1)] assms(2-6)]
  obtain st2 bk2 where
    s: "and_then (master_step st nl) (\<lambda>s. master_step s cl) = Inr st2" and
    b: "books st2 target = Some bk2" "book bk2 = target" "chapters bk2 \<noteq> []"
       "verses (last (chapters bk2)) \<noteq> []" and
    l: "last (verses (last (chapters bk2))) =
          \<lparr>verse_number = int_lstrip0 n3,
           verse_text = strip n4 @ '' '' @ strip (rstrip cl)\<rparr>"
    by blast
  have loop: "for_each master_step master_init (pre @ [nl, cl]) = Inr st2"
    using s assms(1) by (auto simp: for_each_append and_then_def split: sum.splits)
  have t: "target \<in> set BOOKS" by (rule py_index_in_set [OF assms(3)])
  have k: "filter (\<lambda>c. verses c \<noteq> []) (chapters bk2) \<noteq> [] \<and>
           last (filter (\<lambda>c. verses c \<noteq> []) (chapters bk2)) = last (chapters bk2)"
    using b(3,4) by (rule last_filter_keep)
  show ?thesis
    unfolding parse_master_numbered_def loop
    using b l t k by (simp add: trim_fold_apply trim_def)
qed

subsection \<open>In both parsers\<close>

lemma txt_lines_verse_then_continuation:
  assumes "for_each txt_step txt_init pre = Inr st" and "current_chapter_t st \<noteq> None"
    and "VERSE_RE (strip vl) = Some (g1, g2)" and "length g1 \<le> max_str_digits"
    and "strip cl \<noteq> []" and "CHAPTER_RE (strip cl) = None" and "VERSE_RE (strip cl) = None"
  shows "\<exists>bk. parse_book_txt stem (pre @ [vl, cl]) = Inr bk \<and>
           chapters bk =
             butlast (chapters_t st) @
               [(last (chapters_t st))
                  \<lparr>verses := verses (last (chapters_t st)) @
                     [\<lparr>verse_number = int_of g1,
                       verse_text = strip g2 @ '' '' @ strip cl\<rparr>]\<rparr>]"
proof -
  from txt_verse_then_continuation [OF txt_loop_open_ok [OF assms(1)] assms(2-7)]
  obtain st2 where
    s: "and_then (txt_step st vl) (\<lambda>s. txt_step s cl) = Inr st2" and
    c: "chapters_t st2 =
          butlast (chapters_t st) @
            [(last (chapters_t st))
               \<lparr>verses := verses (last (chapters_t st)) @
                  [\<lparr>verse_number = int_of g1,
                    verse_text = strip g2 @ '' '' @ strip cl\<rparr>]\<rparr>]"
    by blast
  have loop: "for_each txt_step txt_init (pre @ [vl, cl]) = Inr st2"
    using s assms(1) by (auto simp: for_each_append and_then_def split: sum.splits)
  show ?thesis
    unfolding parse_book_txt_def Let_def loop using c by simp
qed

lemma two_lines_master_loop:
  "(case for_each master_step master_init
           [''1 In the beginning God created'', ''the heaven and the earth.''] of
      Inl e \<Rightarrow> Inl e
    | Inr st \<Rightarrow> Inr (books st ''Genesis'')) =
   Inr (Some \<lparr>book = ''Genesis'', book_order = 1, chapters = []\<rparr>)"
  by code_simp

text \<open>
  Claim C7, as stated. The two lines of the claim, \<open>1 In the beginning God created\<close> and
  \<open>the heaven and the earth.\<close>, give no verse in either parser of the export script. In
  \<open>parse_book_txt\<close> no chapter is open, so the first line is not a verse line and both
  lines are dropped; in \<open>parse_master_numbered\<close> the first line is not a numbered verse
  line. The book has an empty chapter list in both.
\<close>

theorem continuation_example_without_chapter:
  "parse_book_txt ''Genesis''
       [''1 In the beginning God created'', ''the heaven and the earth.''] =
     Inr \<lparr>book = ''Genesis'', book_order = 1, chapters = []\<rparr> \<and>
   entry_of (parse_master_numbered
       [''1 In the beginning God created'', ''the heaven and the earth.'']) ''Genesis'' =
     Inr (Some \<lparr>book = ''Genesis'', book_order = 1, chapters = []\<rparr>)"
proof -
  have g: "''Genesis'' \<in> set BOOKS" by (simp add: BOOKS_def)
  have a: "parse_book_txt ''Genesis''
       [''1 In the beginning God created'', ''the heaven and the earth.''] =
     Inr \<lparr>book = ''Genesis'', book_order = 1, chapters = []\<rparr>"
    by code_simp
  have b: "entry_of (parse_master_numbered
       [''1 In the beginning God created'', ''the heaven and the earth.'']) ''Genesis'' =
     Inr (Some \<lparr>book = ''Genesis'', book_order = 1, chapters = []\<rparr>)"
    using two_lines_master_loop g
    by (auto simp: entry_of_def parse_master_numbered_def trim_fold_apply trim_def
             split: sum.splits)
  from a b show ?thesis by (rule conjI)
qed

text \<open>
  Claim C7, amended. In \<open>parse_book_txt\<close>, when a chapter is open after the lines \<open>pre\<close>,
  a verse line (whose number has at most 4300 digits) followed by a continuation line adds
  to the last chapter one verse whose text is the verse's text, one space, and the stripped
  continuation line; the chapters before it are unchanged. In \<open>parse_master_numbered\<close>,
  when the loop has passed the lines \<open>pre\<close>, a numbered verse line whose book number
  selects a book of the canon, followed by a continuation line, makes the function return a
  mapping in which the last verse of the last chapter of that book has this joined text.
  With the marker \<open>Chapter 1\<close> before them, the two lines of the claim give the verse of
  the claim.
\<close>

theorem continuation_line_appended:
  "(for_each txt_step txt_init pre = Inr st \<and> current_chapter_t st \<noteq> None \<and>
    VERSE_RE (strip vl) = Some (g1, g2) \<and> length g1 \<le> max_str_digits \<and>
    strip cl \<noteq> [] \<and> CHAPTER_RE (strip cl) = None \<and> VERSE_RE (strip cl) = None \<longrightarrow>
      (\<exists>bk. parse_book_txt stem (pre @ [vl, cl]) = Inr bk \<and>
         chapters bk =
           butlast (chapters_t st) @
             [(last (chapters_t st))
                \<lparr>verses := verses (last (chapters_t st)) @
                   [\<lparr>verse_number = int_of g1,
                     verse_text = strip g2 @ '' '' @ strip cl\<rparr>]\<rparr>])) \<and>
   (for_each master_step master_init mpre = Inr mst \<and>
    NUM_VERSE_RE (rstrip nl) = Some (n1, n2, n3, n4) \<and>
    py_index BOOKS (int (int_of n1) - 1) = Inr target \<and>
    strip (rstrip ml) \<noteq> [] \<and> BOOK_HEADING_RE (strip (rstrip ml)) = None \<and>
    NUM_VERSE_RE (rstrip ml) = None \<longrightarrow>
      (\<exists>m bk. parse_master_numbered (mpre @ [nl, ml]) = Inr m \<and> m target = Some bk \<and>
         book bk = target \<and> chapters bk \<noteq> [] \<and>
         last (verses (last (chapters bk))) =
           \<lparr>verse_number = int_lstrip0 n3,
            verse_text = strip n4 @ '' '' @ strip (rstrip ml)\<rparr>)) \<and>
   parse_book_txt ''Genesis''
       [''Chapter 1'', ''1 In the beginning God created'', ''the heaven and the earth.''] =
     Inr \<lparr>book = ''Genesis'', book_order = 1,
          chapters = [\<lparr>chapter_number = 1,
                       verses = [\<lparr>verse_number = 1,
                                  verse_text =
                                    ''In the beginning God created the heaven and the earth.''\<rparr>]\<rparr>]\<rparr>"
proof (intro conjI impI)
  assume "for_each txt_step txt_init pre = Inr st \<and> current_chapter_t st \<noteq> None \<and>
    VERSE_RE (strip vl) = Some (g1, g2) \<and> length g1 \<le> max_str_digits \<and>
    strip cl \<noteq> [] \<and> CHAPTER_RE (strip cl) = None \<and> VERSE_RE (strip cl) = None"
  then show "\<exists>bk. parse_book_txt stem (pre @ [vl, cl]) = Inr bk \<and>
         chapters bk =
           butlast (chapters_t st) @
             [(last (chapters_t st))
                \<lparr>verses := verses (last (chapters_t st)) @
                   [\<lparr>verse_number = int_of g1,
                     verse_text = strip g2 @ '' '' @ strip cl\<rparr>]\<rparr>]"
    using txt_lines_verse_then_continuation [of pre st vl g1 g2 cl stem] by blast
next
  assume "for_each master_step master_init mpre = Inr mst \<and>
    NUM_VERSE_RE (rstrip nl) = Some (n1, n2, n3, n4) \<and>
    py_index BOOKS (int (int_of n1) - 1) = Inr target \<and>
    strip (rstrip ml) \<noteq> [] \<and> BOOK_HEADING_RE (strip (rstrip ml)) = None \<and>
    NUM_VERSE_RE (rstrip ml) = None"
  then show "\<exists>m bk. parse_master_numbered (mpre @ [nl, ml]) = Inr m \<and> m target = Some bk \<and>
         book bk = target \<and> chapters bk \<noteq> [] \<and>
         last (verses (last (chapters bk))) =
           \<lparr>verse_number = int_lstrip0 n3,
            verse_text = strip n4 @ '' '' @ strip (rstrip ml)\<rparr>"
    using master_lines_verse_then_continuation [of mpre mst nl n1 n2 n3 n4 target ml] by blast
next
  show "parse_book_txt ''Genesis''
       [''Chapter 1'', ''1 In the beginning God created'', ''the heaven and the earth.''] =
     Inr \<lparr>book = ''Genesis'', book_order = 1,
          chapters = [\<lparr>chapter_number = 1,
                       verses = [\<lparr>verse_number = 1,
                                  verse_text =
                                    ''In the beginning God created the heaven and the earth.''\<rparr>]\<rparr>]\<rparr>"
    by code_simp
qed

theorem continuation_line_appended_witness:
  "for_each txt_step txt_init [''Chapter 3''] =
     Inr \<lparr>chapters_t = [\<lparr>chapter_number = 3, verses = []\<rparr>], current_chapter_t = Some 0,
          last_verse_t = None\<rparr> \<and>
   VERSE_RE (strip ''16 For God so loved the world,'') =
     Some (''16'', ''For God so loved the world,'') \<and>
   (\<exists>bk. parse_book_txt ''John''
            [''Chapter 3'', ''16 For God so loved the world,'', ''  that he gave  ''] = Inr bk \<and>
      chapters bk =
        [\<lparr>chapter_number = 3,
          verses = [\<lparr>verse_number = 16,
                     verse_text = ''For God so loved the world, that he gave''\<rparr>]\<rparr>]) \<and>
   NUM_VERSE_RE (rstrip ''01:001:001 In the beginning God created'') =
     Some (''01'', ''001'', ''001'', ''In the beginning God created'') \<and>
   py_index BOOKS (int (int_of ''01'') - 1) = Inr ''Genesis'' \<and>
   (\<exists>m bk. parse_master_numbered
              [''BOOK 01 Genesis'', ''01:001:001 In the beginning God created'',
               ''the heaven and the earth.''] = Inr m \<and>
      m ''Genesis'' = Some bk \<and> book bk = ''Genesis'' \<and> chapters bk \<noteq> [] \<and>
      last (verses (last (chapters bk))) =
        \<lparr>verse_number = 1,
         verse_text = ''In the beginning God created the heaven and the earth.''\<rparr>)"
proof -
  let ?st = "\<lparr>chapters_t = [\<lparr>chapter_number = 3, verses = []\<rparr>], current_chapter_t = Some 0,
          last_verse_t = None\<rparr>"
  have a: "for_each txt_step txt_init [''Chapter 3''] = Inr ?st" by code_simp
  have b: "VERSE_RE (strip ''16 For God so loved the world,'') =
     Some (''16'', ''For God so loved the world,'')" by code_simp
  have c: "length ''16'' \<le> max_str_digits" by (simp add: max_str_digits_def)
  have d: "strip ''  that he gave  '' \<noteq> [] \<and> CHAPTER_RE (strip ''  that he gave  '') = None \<and>
      VERSE_RE (strip ''  that he gave  '') = None" by code_simp
  have e: "strip ''  that he gave  '' = ''that he gave''" by code_simp
  have f: "int_of ''16'' = 16" by code_simp
  have r: "book_number_in_range ''BOOK 01 Genesis''" by code_simp
  from master_loop_total [of "[''BOOK 01 Genesis'']"] r
  obtain mst where g: "for_each master_step master_init [''BOOK 01 Genesis''] = Inr mst"
    by auto
  have h: "NUM_VERSE_RE (rstrip ''01:001:001 In the beginning God created'') =
     Some (''01'', ''001'', ''001'', ''In the beginning God created'')" by code_simp
  have i: "py_index BOOKS (int (int_of ''01'') - 1) = Inr ''Genesis''" by code_simp
  have j: "strip (rstrip ''the heaven and the earth.'') \<noteq> [] \<and>
      BOOK_HEADING_RE (strip (rstrip ''the heaven and the earth.'')) = None \<and>
      NUM_VERSE_RE (rstrip ''the heaven and the earth.'') = None" by code_simp
  have k: "int_lstrip0 ''001'' = 1 \<and> strip ''In the beginning God created'' =
      ''In the beginning God created'' \<and>
      strip (rstrip ''the heaven and the earth.'') = ''the heaven and the earth.''"
    by code_simp
  note t = continuation_line_appended
    [of "[''Chapter 3'']" ?st "''16 For God so loved the world,''" "''16''"
        "''For God so loved the world,''" "''  that he gave  ''" "''John''"
        "[''BOOK 01 Genesis'']" mst "''01:001:001 In the beginning God created''"
        "''01''" "''001''" "''001''" "''In the beginning God created''" "''Genesis''"
        "''the heaven and the earth.''"]
  have a2: "current_chapter_t ?st \<noteq> None" by simp
  have e2: "strip ''For God so loved the world,'' = ''For God so loved the world,''"
    by code_simp
  note t1 = t [THEN conjunct1, THEN mp,
               OF conjI [OF a conjI [OF a2 conjI [OF b conjI [OF c d]]]]]
  note t2 = t [THEN conjunct2, THEN conjunct1, THEN mp,
               OF conjI [OF g conjI [OF h conjI [OF i j]]]]
  from t1 have p1: "\<exists>bk. parse_book_txt ''John''
            [''Chapter 3'', ''16 For God so loved the world,'', ''  that he gave  ''] = Inr bk \<and>
      chapters bk =
        [\<lparr>chapter_number = 3,
          verses = [\<lparr>verse_number = 16,
                     verse_text = ''For God so loved the world, that he gave''\<rparr>]\<rparr>]"
    by (simp add: e e2 f)
  from t2 have p2: "\<exists>m bk. parse_master_numbered
              [''BOOK 01 Genesis'', ''01:001:001 In the beginning God created'',
               ''the heaven and the earth.''] = Inr m \<and>
      m ''Genesis'' = Some bk \<and> book bk = ''Genesis'' \<and> chapters bk \<noteq> [] \<and>
      last (verses (last (chapters bk))) =
        \<lparr>verse_number = 1,
         verse_text = ''In the beginning God created the heaven and the earth.''\<rparr>"
    by (simp add: k)
  from a b p1 h i p2 show ?thesis by (intro conjI)
qed

section \<open>Upload failures\<close>






section \<open>Books absent from the input\<close>

lemma master_result_entries:
  assumes "parse_master_numbered lines = Inr m" and "i < length BOOKS"
  shows "\<exists>bk. m (BOOKS ! i) = Some bk \<and> book bk = BOOKS ! i \<and> book_order bk = i + 1 \<and>
              list_all (\<lambda>c. verses c \<noteq> []) (chapters bk)"
proof -
  from assms(1) obtain st where st: "for_each master_step master_init lines = Inr st"
      and m: "m = foldl trim_empty (books st) BOOKS"
    by (auto simp: parse_master_numbered_def split: sum.splits)
  from assms(2) have mem: "BOOKS ! i \<in> set BOOKS" by simp
  with master_loop_header [OF st] obtain bk0 where
    bk0: "books st (BOOKS ! i) = Some bk0" "book bk0 = BOOKS ! i"
      "book_order bk0 = (case BOOK_INDEX (BOOKS ! i) of None \<Rightarrow> 0 | Some k \<Rightarrow> k)"
    unfolding header_ok_def by blast
  have mi: "m (BOOKS ! i) = Some (trim bk0)"
    unfolding m trim_fold_apply using mem bk0(1) by simp
  have ord: "book_order (trim bk0) = i + 1"
    using bk0(3) BOOK_INDEX_nth [OF assms(2)] by (simp add: trim_def)
  show ?thesis
    using mi ord bk0(2) by (simp add: trim_def list_all_iff)
qed

text \<open>
  Claim C6. A book absent from the input is meant to appear with an empty chapter list. The
  one-line input \<open>00:001:001 In the beginning\<close> has no heading and no verse line numbered
  66, so Revelation, the 66th book, is absent from it; the parser indexes the canon with
  \<open>book_num - 1 = -1\<close>, which selects the last book, and returns Revelation with a
  chapter holding the verse.
\<close>

theorem absent_book_has_chapter:
  "BOOKS ! 65 = ''Revelation'' \<and>
   numbered_for 0 ''00:001:001 In the beginning'' \<and>
   \<not> numbered_for 66 ''00:001:001 In the beginning'' \<and>
   BOOK_HEADING_RE (strip (rstrip ''00:001:001 In the beginning'')) = None \<and>
   entry_of (parse_master_numbered [''00:001:001 In the beginning'']) ''Revelation'' =
     Inr (Some \<lparr>book = ''Revelation'', book_order = 66,
                chapters = [\<lparr>chapter_number = 1,
                             verses = [\<lparr>verse_number = 1,
                                        verse_text = ''In the beginning''\<rparr>]\<rparr>]\<rparr>)"
proof -
  have "BOOKS ! 65 = ''Revelation'' \<and>
   numbered_for 0 ''00:001:001 In the beginning'' \<and>
   \<not> numbered_for 66 ''00:001:001 In the beginning'' \<and>
   BOOK_HEADING_RE (strip (rstrip ''00:001:001 In the beginning'')) = None"
    by code_simp
  with book_zero_export show ?thesis by simp
qed

section \<open>Idempotence of the normalizer\<close>

subsection \<open>The patterns on lines in normal form\<close>

lemma rstrip_id: "s \<noteq> [] \<Longrightarrow> \<not> isspace (last s) \<Longrightarrow> rstrip s = s"
  by (cases s rule: rev_cases) (simp_all add: rstrip_def)

lemma strip_id: "s \<noteq> [] \<Longrightarrow> \<not> isspace (hd s) \<Longrightarrow> \<not> isspace (last s) \<Longrightarrow> strip s = s"
  by (cases s) (simp_all add: strip_def lstrip_def rstrip_id)

lemma dot_star_eol_line: "CHR 0x0A \<notin> set t \<Longrightarrow> dot_star_eol t = Some t"
proof -
  assume a: "CHR 0x0A \<notin> set t"
  then have "takeWhile (\<lambda>c. c \<noteq> CHR 0x0A) t = t" "dropWhile (\<lambda>c. c \<noteq> CHR 0x0A) t = []"
    by auto
  then show ?thesis by (simp add: dot_star_eol_def)
qed

lemma space_is_space: "isspace (CHR '' '')"
  by (simp add: isspace_def)

lemma spaces_then_one:
  assumes "t \<noteq> []" and "\<not> isspace (hd t)"
  shows "spaces_then k (CHR '' '' # t) = k t"
proof -
  from assms have "takeWhile isspace (CHR '' '' # t) = [CHR '' '']"
    by (cases t) (simp_all add: space_is_space)
  then show ?thesis by (simp add: spaces_then_def split: option.splits)
qed

lemma digits_prefix:
  assumes "list_all isdigit ds" and "\<not> isdigit c"
  shows "takeWhile isdigit (ds @ c # r) = ds" and "dropWhile isdigit (ds @ c # r) = c # r"
  using assms by (simp_all add: list_all_iff)

lemma space_not_digit: "\<not> isdigit (CHR '' '')"
  by (simp add: isdigit_def)

lemma verse_line_match:
  assumes "clean_text t"
  shows "VERSE_SIMPLE_RE (str_nat v @ '' '' @ t) = Some (str_nat v, t)"
proof -
  from str_nat_digits [of v] have d: "list_all isdigit (str_nat v)" "str_nat v \<noteq> []"
    by simp_all
  have s: "str_nat v @ '' '' @ t = str_nat v @ CHR '' '' # t" by simp
  from assms have t: "t \<noteq> []" "\<not> isspace (hd t)" "CHR 0x0A \<notin> set t"
    by (simp_all add: clean_text_def)
  show ?thesis
    unfolding s VERSE_SIMPLE_RE_def Let_def
      digits_prefix [OF d(1) space_not_digit] spaces_then_one [OF t(1,2)]
    using d(2) t(3) by (simp add: dot_star_eol_line)
qed

lemma digits_eol_all: "list_all isdigit ds \<Longrightarrow> ds \<noteq> [] \<Longrightarrow> digits_eol ds = Some ds"
proof -
  assume a: "list_all isdigit ds" "ds \<noteq> []"
  then have t: "takeWhile isdigit ds = ds" and d: "dropWhile isdigit ds = []"
    by (simp_all add: list_all_iff)
  show ?thesis unfolding digits_eol_def Let_def t d using a(2) by simp
qed

lemma capital_c_not_space: "\<not> isspace (CHR ''C'')"
  by (simp add: isspace_def)

lemma lower_chapter: "lower ''Chapter'' = ''chapter''"
  by code_simp

lemma chapter_line_match: "CHAPTER_HEADING_RE (''Chapter '' @ str_nat n) = Some (str_nat n)"
proof -
  from str_nat_digits [of n] have d: "list_all isdigit (str_nat n)" "str_nat n \<noteq> []"
    by simp_all
  then have h: "\<not> isspace (hd (str_nat n))"
    by (cases "str_nat n") (simp_all add: digit_not_space)
  have t: "take 7 (''Chapter '' @ str_nat n) = ''Chapter''"
      "drop 7 (''Chapter '' @ str_nat n) = CHR '' '' # str_nat n"
    by simp_all
  show ?thesis
    unfolding CHAPTER_HEADING_RE_def t lower_chapter spaces_then_one [OF d(2) h]
    using d by (simp add: digits_eol_all)
qed

lemma last_str_nat_digit: "isdigit (last (str_nat n))"
  using str_nat_digits [of n] by (simp add: list_all_iff)

lemma render_strip:
  assumes "case e of ChapterLine n \<Rightarrow> True | VerseLine v t \<Rightarrow> clean_text t
           | LooseLine s \<Rightarrow> clean_text s"
  shows "strip (render e) = render e" and "rstrip (render e) = render e" and "render e \<noteq> []"
proof -
  have "render e \<noteq> [] \<and> \<not> isspace (hd (render e)) \<and> \<not> isspace (last (render e))"
  proof (cases e)
    case (ChapterLine n)
    then show ?thesis
      using digit_not_space [OF last_str_nat_digit [of n]] str_nat_digits [of n]
      by (simp add: capital_c_not_space)
  next
    case (VerseLine v t)
    with assms have "clean_text t" by simp
    with VerseLine show ?thesis
      using str_nat_digits [of v]
      by (cases "str_nat v") (simp_all add: clean_text_def digit_not_space)
  next
    case (LooseLine s)
    with assms show ?thesis by (simp add: clean_text_def)
  qed
  then show "strip (render e) = render e" and "rstrip (render e) = render e" and "render e \<noteq> []"
    by (simp_all add: strip_id rstrip_id)
qed

subsection \<open>Lines in normal form are no headings\<close>

lemma contains_subset: "contains s a \<Longrightarrow> set a \<subseteq> set s"
proof (induction s)
  case Nil
  then show ?case by simp
next
  case (Cons c cs)
  from Cons.prems have "startswith (c # cs) a \<or> contains cs a" by simp
  then show ?case
  proof
    assume "startswith (c # cs) a"
    then have "a = take (length a) (c # cs)" by (simp add: startswith_def)
    then show ?thesis using set_take_subset [of "length a" "c # cs"] by metis
  next
    assume "contains cs a"
    with Cons.IH show ?thesis by auto
  qed
qed

lemma startswith_digits_suffix:
  assumes "list_all isdigit ds" and "a \<noteq> []" and "\<not> isdigit (last a)"
    and "startswith (p @ ds) a"
  shows "startswith p a"
proof (cases "length a \<le> length p")
  case True
  with assms(4) show ?thesis by (simp add: startswith_def)
next
  case False
  from assms(4) have a: "a = p @ take (length a - length p) ds"
    using False by (simp add: startswith_def)
  from False a have "take (length a - length p) ds \<noteq> []"
    by (metis append_Nil2 linorder_le_cases)
  with a have "last a = last (take (length a - length p) ds)" by (metis last_appendR)
  moreover have "last (take (length a - length p) ds) \<in> set ds"
    using \<open>take (length a - length p) ds \<noteq> []\<close>
    by (meson in_set_takeD last_in_set)
  ultimately have "isdigit (last a)" using assms(1) by (simp add: list_all_iff)
  with assms(3) show ?thesis by simp
qed

lemma contains_digits_suffix:
  assumes "list_all isdigit ds" and "a \<noteq> []" and "\<not> isdigit (last a)"
  shows "contains (p @ ds) a \<Longrightarrow> contains p a"
proof (induction p)
  case Nil
  then have "set a \<subseteq> set ds" using contains_subset by simp
  with assms have False by (metis last_in_set list_all_iff subsetD)
  then show ?case ..
next
  case (Cons c p)
  from Cons.prems have "startswith ((c # p) @ ds) a \<or> contains (p @ ds) a" by simp
  then show ?case
  proof
    assume "startswith ((c # p) @ ds) a"
    with assms have "startswith (c # p) a" by (rule startswith_digits_suffix)
    then show ?thesis by simp
  next
    assume "contains (p @ ds) a"
    with Cons.IH show ?thesis by simp
  qed
qed

lemma aliases_not_in_chapter:
  "list_all (\<lambda>(canon, aliases).
      list_all (\<lambda>a. a \<noteq> [] \<and> \<not> isdigit (last a) \<and> \<not> contains ''CHAPTER '' a) aliases) ALIASES"
  by code_simp

lemma no_alias_in_chapter_line:
  assumes "list_all isdigit ds"
  shows "find (\<lambda>(canon, aliases).
            list_ex (\<lambda>alias. contains (''CHAPTER '' @ ds) alias \<or>
                              contains (''CHAPTER '' @ ds) alias) aliases) ALIASES = None"
proof -
  have "\<not> contains (''CHAPTER '' @ ds) a" if "(c, as) \<in> set ALIASES" "a \<in> set as" for c as a
  proof -
    from aliases_not_in_chapter that
    have "a \<noteq> []" "\<not> isdigit (last a)" "\<not> contains ''CHAPTER '' a"
      by (auto simp: list_all_iff)
    with assms show ?thesis using contains_digits_suffix by blast
  qed
  then show ?thesis
    by (auto simp: find_None_iff list_ex_iff)
qed

lemma upper_append: "upper (a @ b) = upper a @ upper b"
  by (simp add: upper_def)

lemma upper_digits: "list_all isdigit ds \<Longrightarrow> upper ds = ds"
proof (induction ds)
  case Nil
  show ?case by (simp add: upper_def)
next
  case (Cons d ds)
  then have "isdigit d" by simp
  then have "upper_char d = [d]"
    unfolding isdigit_def upper_char_def by auto
  with Cons show ?case by (simp add: upper_def)
qed

lemma upper_chapter: "upper ''Chapter '' = ''CHAPTER ''"
  by code_simp

lemma sub_runs_none: "\<forall>c \<in> set s. \<not> p c \<Longrightarrow> sub_runs p s = s"
  by (induction s) simp_all

lemma digit_not_punct: "isdigit d \<Longrightarrow> \<not> ispunct d"
  unfolding isdigit_def ispunct_def by auto

lemma chapter_no_punct: "\<forall>c \<in> set ''CHAPTER ''. \<not> ispunct c"
  by (simp add: ispunct_def)

lemma sub_runs_space_chapter:
  assumes "list_all isdigit ds"
  shows "sub_runs isspace (''CHAPTER '' @ ds) = ''CHAPTER '' @ ds"
proof -
  from assms have n: "\<forall>c \<in> set ds. \<not> isspace c"
    by (simp add: list_all_iff digit_not_space)
  then have d: "dropWhile isspace ds = ds"
    by (cases ds) simp_all
  have c: "\<not> isspace (CHR ''C'')" "\<not> isspace (CHR ''H'')" "\<not> isspace (CHR ''A'')"
      "\<not> isspace (CHR ''P'')" "\<not> isspace (CHR ''T'')" "\<not> isspace (CHR ''E'')"
      "\<not> isspace (CHR ''R'')"
    by (simp_all add: isspace_def)
  show ?thesis
    using c space_is_space d sub_runs_none [OF n] by simp
qed

lemma chapter_line_no_heading: "is_heading (''Chapter '' @ str_nat n) = None"
proof -
  let ?raw = "''Chapter '' @ str_nat n"
  from str_nat_digits [of n] have d: "list_all isdigit (str_nat n)" "str_nat n \<noteq> []"
    by simp_all
  have st: "strip ?raw = ?raw" "?raw \<noteq> []"
    using render_strip [of "ChapterLine n"] by simp_all
  have nd: "\<not> isdigit (CHR ''C'')" by (simp add: isdigit_def)
  then have tw: "takeWhile isdigit ?raw = []" by simp
  have vc: "VERSE_COLON_RE ?raw = None" unfolding VERSE_COLON_RE_def Let_def tw by simp
  have vs: "VERSE_SIMPLE_RE ?raw = None" unfolding VERSE_SIMPLE_RE_def Let_def tw by simp
  have up: "upper ?raw = ''CHAPTER '' @ str_nat n"
    by (simp only: upper_append upper_chapter upper_digits [OF d(1)])
  have np: "\<forall>c \<in> set (''CHAPTER '' @ str_nat n). \<not> ispunct c"
    using chapter_no_punct d(1) by (auto simp: list_all_iff digit_not_punct)
  have p: "sub_runs ispunct (''CHAPTER '' @ str_nat n) = ''CHAPTER '' @ str_nat n"
    using np by (rule sub_runs_none)
  have sp: "sub_runs isspace (''CHAPTER '' @ str_nat n) = ''CHAPTER '' @ str_nat n"
    using d(1) by (rule sub_runs_space_chapter)
  have sc: "strip (''CHAPTER '' @ str_nat n) = ''CHAPTER '' @ str_nat n"
  proof (rule strip_id)
    show "''CHAPTER '' @ str_nat n \<noteq> []" by simp
    show "\<not> isspace (hd (''CHAPTER '' @ str_nat n))" by (simp add: capital_c_not_space)
    show "\<not> isspace (last (''CHAPTER '' @ str_nat n))"
      using digit_not_space [OF last_str_nat_digit [of n]] d(2) by simp
  qed
  have lc: "lower (take 4 ?raw) \<noteq> ''book''"
  proof -
    have "take 4 ?raw = ''Chap''" by simp
    moreover have "lower ''Chap'' = ''chap''" by code_simp
    ultimately show ?thesis by simp
  qed
  have bh: "BOOK_HEADING_RE ?raw = None"
    unfolding BOOK_HEADING_RE_def using lc by simp
  show ?thesis
    unfolding is_heading_def Let_def st up p sp sc
    using st(2) vc vs bh no_alias_in_chapter_line [OF d(1)]
    by (simp add: matches_def)
qed

lemma verse_line_no_heading:
  assumes "clean_text t"
  shows "is_heading (str_nat v @ '' '' @ t) = None"
proof -
  have st: "strip (str_nat v @ '' '' @ t) = str_nat v @ '' '' @ t"
    using render_strip [of "VerseLine v t"] assms by simp
  show ?thesis
    unfolding is_heading_def Let_def st verse_line_match [OF assms]
    by (simp add: matches_def)
qed

subsection \<open>Stripping\<close>

lemma rstrip_Cons_gen:
  "rstrip (c # cs) = (if rstrip cs = [] \<and> isspace c then [] else c # rstrip cs)"
  by (auto simp: rstrip_def dropWhile_append)

lemma lstrip_rstrip: "lstrip (rstrip s) = rstrip (lstrip s)"
proof (induction s)
  case Nil
  show ?case by (simp add: lstrip_def rstrip_def)
next
  case (Cons c cs)
  show ?case
  proof (cases "isspace c")
    case True
    show ?thesis
    proof (cases "rstrip cs = []")
      case e: True
      with Cons have "rstrip (lstrip cs) = []" by (simp add: lstrip_def)
      with e True show ?thesis by (simp add: rstrip_Cons_gen lstrip_def)
    next
      case False
      with True Cons show ?thesis by (simp add: rstrip_Cons_gen lstrip_def)
    qed
  next
    case False
    then show ?thesis by (simp add: rstrip_Cons_gen) (simp add: lstrip_def rstrip_Cons_gen)
  qed
qed

lemma rstrip_rstrip: "rstrip (rstrip s) = rstrip s"
  by (simp add: rstrip_def)

lemma strip_rstrip: "strip (rstrip s) = strip s"
  by (simp add: strip_def lstrip_rstrip rstrip_rstrip)

lemma set_rstrip: "set (rstrip s) \<subseteq> set s"
  unfolding rstrip_def using set_dropWhileD [of _ isspace "rev s"] by auto

lemma set_strip: "set (strip s) \<subseteq> set s"
  unfolding strip_def lstrip_def
  using set_rstrip [of "dropWhile isspace s"] set_dropWhileD [of _ isspace s] by blast

lemma rstrip_last: "rstrip s \<noteq> [] \<Longrightarrow> \<not> isspace (last (rstrip s))"
  unfolding rstrip_def using hd_dropWhile [of isspace "rev s"] by (simp add: last_rev)

lemma strip_ends:
  assumes "strip s \<noteq> []"
  shows "\<not> isspace (hd (strip s))" and "\<not> isspace (last (strip s))"
proof -
  from assms have l: "lstrip s \<noteq> []" by (auto simp: strip_def rstrip_def)
  then have h: "\<not> isspace (hd (lstrip s))"
    unfolding lstrip_def by (rule hd_dropWhile)
  with l show "\<not> isspace (hd (strip s))"
    unfolding strip_def by (cases "lstrip s") (simp_all add: rstrip_Cons)
  from assms show "\<not> isspace (last (strip s))"
    unfolding strip_def by (rule rstrip_last)
qed

lemma spaces_then_line:
  assumes "CHR 0x0A \<notin> set s" and "spaces_then dot_star_eol s = Some t"
  shows "t = dropWhile isspace s"
proof -
  from assms(2) have p: "0 < length (takeWhile isspace s)"
    unfolding spaces_then_def by (rule ws_then_Some)
  then obtain n where n: "length (takeWhile isspace s) = Suc n" by (cases "length (takeWhile isspace s)") auto
  have "CHR 0x0A \<notin> set (drop (Suc n) s)" using assms(1) by (meson in_set_dropD)
  then have "dot_star_eol (drop (Suc n) s) = Some (drop (Suc n) s)" by (rule dot_star_eol_line)
  with assms(2) n have "t = drop (length (takeWhile isspace s)) s"
    by (simp add: spaces_then_def)
  then show ?thesis by (simp add: dropWhile_eq_drop)
qed

lemma simple_verse_clean:
  assumes "VERSE_SIMPLE_RE raw = Some (v, t)" and "\<not> isspace (last raw)"
    and "CHR 0x0A \<notin> set raw"
  shows "clean_text t"
proof -
  let ?r = "dropWhile isdigit raw"
  from assms(1) have m: "spaces_then dot_star_eol ?r = Some t"
    by (auto simp: VERSE_SIMPLE_RE_def Let_def split: if_splits)
  have nl: "CHR 0x0A \<notin> set ?r" using assms(3) by (meson set_dropWhileD)
  from spaces_then_line [OF nl m] have t: "t = dropWhile isspace ?r" .
  from spaces_then_Some [OF m] have r: "?r \<noteq> []" by simp
  then have lr: "last ?r = last raw"
    by (metis last_appendR takeWhile_dropWhile_id)
  have ne: "t \<noteq> []"
  proof
    assume "t = []"
    with t have "dropWhile isspace ?r = []" by simp
    then have "\<forall>x \<in> set ?r. isspace x" by (simp only: dropWhile_eq_Nil_conv)
    with r have "isspace (last ?r)" by simp
    with lr assms(2) show False by simp
  qed
  have h: "\<not> isspace (hd t)" using ne unfolding t by (rule hd_dropWhile)
  have "last t = last ?r"
    using ne unfolding t by (metis last_appendR takeWhile_dropWhile_id)
  with lr assms(2) have l: "\<not> isspace (last t)" by simp
  have "CHR 0x0A \<notin> set t" unfolding t using nl by (meson set_dropWhileD)
  with ne h l show ?thesis by (simp add: clean_text_def)
qed

lemma dropWhile_none: "\<forall>x \<in> set xs. \<not> p x \<Longrightarrow> dropWhile p xs = xs"
  by (cases xs) simp_all

subsection \<open>The normalizer on its normal form\<close>

lemma entry_strip:
  assumes "entry_ok e"
  shows "strip (render e) = render e" and "rstrip (render e) = render e" and "render e \<noteq> []"
  using assms render_strip [of e] by (cases e; simp add: entry_ok_def)+

lemma render_no_heading: "entry_ok e \<Longrightarrow> stable e \<Longrightarrow> is_heading (render e) = None"
  using chapter_line_no_heading verse_line_no_heading
  by (cases e) (simp_all add: entry_ok_def stable_def)

lemma render_not_blank: "entry_ok e \<Longrightarrow> \<not> blank (render e)"
  using entry_strip [of e] by (simp add: blank_def)

lemma clean_filtered_rendered:
  assumes "\<forall>e \<in> set es. entry_ok e \<and> stable e"
  shows "clean_filtered (map render es) = map render es"
proof -
  have f: "filter (\<lambda>ln. \<not> matches (is_heading ln)) (map render es) = map render es"
    using assms by (simp add: filter_id_conv render_no_heading matches_def)
  have r: "map rstrip (map render es) = map render es"
    using assms entry_strip(2) by simp
  have b: "\<forall>x \<in> set (map render es). \<not> blank x"
    using assms by (simp add: render_not_blank)
  then have b': "\<forall>x \<in> set (rev (map render es)). \<not> blank x" by simp
  show ?thesis
    unfolding clean_filtered_def Let_def f r dropWhile_none [OF b] dropWhile_none [OF b']
    by simp
qed

lemma clean_step_bare_verse:
  assumes "VERSE_SIMPLE_RE (strip ln) = Some (v, t)"
  shows "clean_step st ln =
           and_then (py_int v) (\<lambda>v_num.
             and_then
               (if current_chapter st = None then start_chapter 1 st
                else if (case last_verse_in_chapter st of
                           None \<Rightarrow> False
                         | Some l \<Rightarrow> v_num = 1 \<and> l \<noteq> 0 \<and> l > 1)
                then start_chapter
                       ((case current_chapter st of None \<Rightarrow> 0 | Some c \<Rightarrow> c) + 1) st
                else Inr st)
               (append_verse v_num (strip t)))"
proof -
  from VERSE_SIMPLE_RE_digit [OF assms]
  have d: "strip ln \<noteq> []" "isdigit (hd (strip ln))" by simp_all
  have c: "CHAPTER_HEADING_RE (strip ln) = None"
    using d by (rule CHAPTER_HEADING_RE_digit)
  have k: "VERSE_COLON_RE (strip ln) = None"
    using assms by (rule VERSE_COLON_RE_simple)
  show ?thesis
    using assms d(1) c k by (simp add: clean_step_def Let_def)
qed

lemma clean_step_chapter_line:
  assumes "short n"
  shows "clean_step st (render (ChapterLine n)) =
           Inr (st\<lparr>current_chapter := Some n, last_verse_in_chapter := None,
                   normalized := normalized st @ [render (ChapterLine n)]\<rparr>)"
proof -
  have st: "strip (''Chapter '' @ str_nat n) = ''Chapter '' @ str_nat n"
      "''Chapter '' @ str_nat n \<noteq> []"
    using render_strip [of "ChapterLine n"] by simp_all
  have i: "py_int (str_nat n) = Inr n" "py_str n = Inr (str_nat n)"
    using assms by (simp_all add: short_def py_int_str_nat py_str_ok)
  show ?thesis
    unfolding render.simps clean_step_def Let_def st chapter_line_match
    using st(2) i by (simp add: start_chapter_def)
qed

lemma clean_step_verse_line:
  assumes "clean_text t" and "short v" and "current_chapter st \<noteq> None"
    and "\<not> (v = 1 \<and> (case last_verse_in_chapter st of None \<Rightarrow> False | Some l \<Rightarrow> 1 < l))"
  shows "clean_step st (render (VerseLine v t)) =
           Inr (st\<lparr>normalized := normalized st @ [render (VerseLine v t)],
                   last_verse_in_chapter := Some v\<rparr>)"
proof -
  have s: "strip (str_nat v @ '' '' @ t) = str_nat v @ '' '' @ t"
    using render_strip [of "VerseLine v t"] assms(1) by simp
  have m: "VERSE_SIMPLE_RE (strip (str_nat v @ '' '' @ t)) = Some (str_nat v, t)"
    unfolding s using assms(1) by (rule verse_line_match)
  have t: "strip t = t"
    using assms(1) by (simp add: clean_text_def strip_id)
  have i: "py_int (str_nat v) = Inr v" "py_str v = Inr (str_nat v)"
    using assms(2) by (simp_all add: short_def py_int_str_nat py_str_ok)
  show ?thesis
    unfolding render.simps clean_step_bare_verse [OF m] t i
    using assms(3,4) by (auto simp: append_verse_def i split: option.splits)
qed

lemma clean_step_loose_line:
  assumes "clean_text s" and "stable (LooseLine s)" and "current_chapter st \<noteq> None"
    and "normalized st = [] \<or> startswith (last (normalized st)) ''Chapter ''"
  shows "clean_step st s = Inr (st\<lparr>normalized := normalized st @ [s]\<rparr>)"
proof -
  from assms(1) have s: "strip s = s" "s \<noteq> []"
    by (simp_all add: clean_text_def strip_id)
  from assms(2) have m: "CHAPTER_HEADING_RE s = None" "VERSE_COLON_RE s = None"
      "VERSE_SIMPLE_RE s = None"
    by (simp_all add: stable_def)
  show ?thesis
    using s m assms(3,4) by (auto simp: clean_step_def Let_def)
qed

lemma second_pass:
  assumes "current_chapter st \<noteq> None"
    and "shape_from (normalized st = [] \<or> startswith (last (normalized st)) ''Chapter '') es"
    and "no_reset (last_verse_in_chapter st) es" and "list_all stable es"
  shows "\<exists>st'. for_each clean_step st (map render es) = Inr st' \<and>
               normalized st' = normalized st @ map render es"
  using assms
proof (induction es arbitrary: st)
  case Nil
  show ?case by simp
next
  case (Cons e es)
  from Cons.prems(2) have ok: "entry_ok e"
    and sh: "shape_from (startswith (render e) ''Chapter '') es"
    by simp_all
  from Cons.prems(4) have se: "stable e" and ses: "list_all stable es" by simp_all
  have "\<exists>st1. clean_step st (render e) = Inr st1 \<and>
          normalized st1 = normalized st @ [render e] \<and> current_chapter st1 \<noteq> None \<and>
          no_reset (last_verse_in_chapter st1) es"
  proof (cases e)
    case (ChapterLine n)
    with ok have "short n" by (simp add: entry_ok_def)
    from clean_step_chapter_line [OF this, of st] Cons.prems(3) ChapterLine
    show ?thesis by simp
  next
    case (VerseLine v t)
    with ok have c: "clean_text t" "short v" by (simp_all add: entry_ok_def)
    from Cons.prems(3) VerseLine
    have r: "\<not> (v = 1 \<and> (case last_verse_in_chapter st of None \<Rightarrow> False | Some l \<Rightarrow> 1 < l))"
      and n: "no_reset (Some v) es"
      by simp_all
    from clean_step_verse_line [OF c Cons.prems(1) r] n VerseLine
    show ?thesis using Cons.prems(1) by simp
  next
    case (LooseLine s)
    with ok have c: "clean_text s" by (simp add: entry_ok_def)
    from Cons.prems(2) LooseLine
    have p: "normalized st = [] \<or> startswith (last (normalized st)) ''Chapter ''"
      by simp
    from se LooseLine have sl: "stable (LooseLine s)" by simp
    from clean_step_loose_line [OF c sl Cons.prems(1) p] Cons.prems(1,3) LooseLine
    show ?thesis by simp
  qed
  then obtain st1 where
    s1: "clean_step st (render e) = Inr st1" and
    n1: "normalized st1 = normalized st @ [render e]" and
    c1: "current_chapter st1 \<noteq> None" and
    r1: "no_reset (last_verse_in_chapter st1) es"
    by blast
  have sh1: "shape_from (normalized st1 = [] \<or> startswith (last (normalized st1)) ''Chapter '') es"
    using sh n1 by simp
  from Cons.IH [OF c1 sh1 r1 ses] obtain st' where
    "for_each clean_step st1 (map render es) = Inr st'"
    "normalized st' = normalized st1 @ map render es"
    by blast
  with s1 n1 show ?case by simp
qed

lemma shape_entries: "shape_from p es \<Longrightarrow> \<forall>e \<in> set es. entry_ok e"
  by (induction es arbitrary: p) auto

lemma normal_form_fixed:
  assumes "normal_form es"
  shows "clean_book_lines name (map render es) = Inr (map render es)"
proof (cases es)
  case Nil
  then show ?thesis
    by (simp add: clean_book_lines_def clean_filtered_def clean_init_def)
next
  case (Cons e es')
  from assms have sh: "shape es" and nr: "no_reset None es" and sb: "list_all stable es"
    by (simp_all add: normal_form_def settled_def)
  from sh Cons obtain n where e: "e = ChapterLine n" and sf: "shape_from True es"
    by (cases e) (simp_all add: shape_def)
  from sf Cons e have ok: "short n"
    and sf': "shape_from (startswith (render (ChapterLine n)) ''Chapter '') es'"
    by (simp_all add: entry_ok_def)
  have all: "\<forall>x \<in> set es. entry_ok x \<and> stable x"
    using shape_entries [OF sf] sb by (simp add: list_all_iff)
  let ?st1 = "clean_init\<lparr>current_chapter := Some n, last_verse_in_chapter := None,
                        normalized := normalized clean_init @ [render (ChapterLine n)]\<rparr>"
  have s1: "clean_step clean_init (render (ChapterLine n)) = Inr ?st1"
    using ok by (rule clean_step_chapter_line)
  have n1: "normalized ?st1 = [render (ChapterLine n)]" by (simp add: clean_init_def)
  have "\<exists>st'. for_each clean_step ?st1 (map render es') = Inr st' \<and>
               normalized st' = normalized ?st1 @ map render es'"
  proof (rule second_pass)
    show "current_chapter ?st1 \<noteq> None" by simp
    show "shape_from (normalized ?st1 = [] \<or> startswith (last (normalized ?st1)) ''Chapter '') es'"
      using sf' unfolding n1 by simp
    show "no_reset (last_verse_in_chapter ?st1) es'" using nr Cons e by simp
    show "list_all stable es'" using sb Cons by simp
  qed
  then obtain st' where
    "for_each clean_step ?st1 (map render es') = Inr st'"
    "normalized st' = map render es"
    unfolding n1 Cons e by auto
  then have "and_then (for_each clean_step clean_init (map render es)) (\<lambda>st. Inr (normalized st)) =
      Inr (map render es)"
    unfolding Cons e using s1 by (simp del: render.simps)
  then show ?thesis
    unfolding clean_book_lines_def clean_filtered_rendered [OF all] .
qed

subsection \<open>The shape of the normalizer's output\<close>

lemma clean_text_strip:
  assumes "strip ln \<noteq> []" and "CHR 0x0A \<notin> set ln"
  shows "clean_text (strip ln)"
  using assms strip_ends [OF assms(1)] set_strip [of ln] by (auto simp: clean_text_def)

lemma clean_text_merge:
  assumes "clean_text a" and "clean_text b"
  shows "clean_text (a @ '' '' @ b)"
  using assms by (auto simp: clean_text_def)

lemma clean_text_id: "clean_text t \<Longrightarrow> strip t = t"
  by (simp add: clean_text_def strip_id)

lemma colon_verse_clean:
  assumes "VERSE_COLON_RE raw = Some (c, v, t)" and "\<not> isspace (last raw)"
    and "CHR 0x0A \<notin> set raw"
  shows "clean_text t"
proof -
  from assms(1) obtain r where
    d: "dropWhile isdigit raw = CHR '':'' # r" and
    m: "spaces_then dot_star_eol (dropWhile isdigit r) = Some t"
    by (auto simp: VERSE_COLON_RE_def Let_def split: if_splits list.splits)
  let ?r = "dropWhile isdigit r"
  have sub: "set ?r \<subseteq> set raw"
  proof -
    have "set ?r \<subseteq> set r" by (meson set_dropWhileD subsetI)
    also have "\<dots> \<subseteq> set (dropWhile isdigit raw)" unfolding d by auto
    also have "\<dots> \<subseteq> set raw" by (meson set_dropWhileD subsetI)
    finally show ?thesis .
  qed
  have nl: "CHR 0x0A \<notin> set ?r" using assms(3) sub by blast
  from spaces_then_line [OF nl m] have t: "t = dropWhile isspace ?r" .
  from spaces_then_Some [OF m] have r: "?r \<noteq> []" by simp
  have "raw = takeWhile isdigit raw @ CHR '':'' # takeWhile isdigit r @ ?r"
    using d by (metis takeWhile_dropWhile_id)
  with r have lr: "last ?r = last raw"
    by (metis append_is_Nil_conv last_ConsR last_appendR list.distinct(1))
  have ne: "t \<noteq> []"
  proof
    assume "t = []"
    with t have "dropWhile isspace ?r = []" by simp
    then have "\<forall>x \<in> set ?r. isspace x" by (simp only: dropWhile_eq_Nil_conv)
    with r have "isspace (last ?r)" by simp
    with lr assms(2) show False by simp
  qed
  have h: "\<not> isspace (hd t)" using ne unfolding t by (rule hd_dropWhile)
  have "last t = last ?r"
    using ne unfolding t by (metis last_appendR takeWhile_dropWhile_id)
  with lr assms(2) have l: "\<not> isspace (last t)" by simp
  have "CHR 0x0A \<notin> set t" unfolding t using nl by (meson set_dropWhileD)
  with ne h l show ?thesis by (simp add: clean_text_def)
qed

lemma start_chapter_Inr:
  assumes "start_chapter n st = Inr st1"
  shows "short n" and
    "st1 = st\<lparr>current_chapter := Some n, last_verse_in_chapter := None,
              normalized := normalized st @ [render (ChapterLine n)]\<rparr>"
  using assms
  by (auto simp: start_chapter_def and_then_eq_Inr py_str_def short_def split: if_splits)

lemma append_verse_Inr:
  assumes "append_verse v t st = Inr st1"
  shows "short v" and
    "st1 = st\<lparr>normalized := normalized st @ [render (VerseLine v t)],
              last_verse_in_chapter := Some v\<rparr>"
  using assms
  by (auto simp: append_verse_def and_then_eq_Inr py_str_def short_def split: if_splits)

lemma shape_from_snoc:
  "shape_from p (es @ [e]) =
     (shape_from p es \<and> entry_ok e \<and>
      (case e of
         LooseLine s \<Rightarrow> (if es = [] then p else startswith (render (last es)) ''Chapter '')
       | _ \<Rightarrow> True))"
  by (induction es arbitrary: p) (auto split: entry.splits)

lemma shape_single: "shape [ChapterLine n] = short n"
  by (simp add: shape_def entry_ok_def)

lemma shape_snoc:
  assumes "es \<noteq> []"
  shows "shape (es @ [e]) =
           (shape es \<and> entry_ok e \<and>
            (case e of LooseLine s \<Rightarrow> startswith (render (last es)) ''Chapter '' | _ \<Rightarrow> True))"
proof -
  from assms obtain x xs where es: "es = x # xs" by (cases es) auto
  have "shape (es @ [e]) =
      ((case x of ChapterLine n \<Rightarrow> True | _ \<Rightarrow> False) \<and> shape_from True (es @ [e]))"
    unfolding es by (cases x) (simp_all add: shape_def)
  moreover have "shape es = ((case x of ChapterLine n \<Rightarrow> True | _ \<Rightarrow> False) \<and> shape_from True es)"
    unfolding es by (cases x) (simp_all add: shape_def)
  ultimately show ?thesis
    unfolding shape_from_snoc using assms by (auto split: entry.splits)
qed

lemma lv_after_snoc:
  "lv_after lv (es @ [ChapterLine n]) = None"
  "lv_after lv (es @ [VerseLine v t]) = Some v"
  "lv_after lv (es @ [LooseLine s]) = lv_after lv es"
  by (induction lv es rule: lv_after.induct) simp_all

lemma no_reset_snoc:
  "no_reset lv (es @ [ChapterLine n]) = no_reset lv es"
  "no_reset lv (es @ [VerseLine v t]) =
     (no_reset lv es \<and>
      \<not> (v = 1 \<and> (case lv_after lv es of None \<Rightarrow> False | Some l \<Rightarrow> 1 < l)))"
  "no_reset lv (es @ [LooseLine s]) = no_reset lv es"
  by (induction lv es rule: no_reset.induct) auto

lemma settled_snoc:
  "settled (es @ [ChapterLine n]) = settled es"
  "settled (es @ [VerseLine v t]) =
     (settled es \<and> \<not> (v = 1 \<and> (case lv_after None es of None \<Rightarrow> False | Some l \<Rightarrow> 1 < l)))"
  by (auto simp: settled_def no_reset_snoc stable_def)

lemma tracks_chapter:
  assumes "tracks st es" and "short n"
  shows "tracks (st\<lparr>current_chapter := Some n, last_verse_in_chapter := None,
                    normalized := normalized st @ [render (ChapterLine n)]\<rparr>)
           (es @ [ChapterLine n])"
proof (cases "es = []")
  case True
  with assms show ?thesis
    by (simp add: tracks_def shape_single del: render.simps)
next
  case False
  with assms show ?thesis
    by (simp add: tracks_def shape_snoc lv_after_snoc entry_ok_def del: render.simps)
qed

lemma tracks_verse:
  assumes "tracks st es" and "es \<noteq> []" and "short v" and "clean_text t"
  shows "tracks (st\<lparr>normalized := normalized st @ [render (VerseLine v t)],
                    last_verse_in_chapter := Some v\<rparr>)
           (es @ [VerseLine v t])"
  using assms
  by (simp add: tracks_def shape_snoc lv_after_snoc entry_ok_def del: render.simps)

lemma tracks_loose:
  assumes "tracks st es" and "es \<noteq> []" and "clean_text s"
    and "startswith (last (normalized st)) ''Chapter ''"
  shows "tracks (st\<lparr>normalized := normalized st @ [s]\<rparr>) (es @ [LooseLine s])"
  using assms
  by (simp add: tracks_def shape_snoc lv_after_snoc entry_ok_def last_map del: render.simps(1,2))

lemma chapter_line_prefix: "startswith (render (ChapterLine n)) ''Chapter ''"
  by (simp add: startswith_def)

lemma tracks_merge:
  assumes "tracks st es" and "normalized st \<noteq> []"
    and "\<not> startswith (last (normalized st)) ''Chapter ''" and "clean_text raw"
  shows "\<exists>es'. tracks (st\<lparr>normalized :=
                     butlast (normalized st) @ [last (normalized st) @ '' '' @ raw]\<rparr>) es'"
proof -
  from assms(1,2) have ne: "es \<noteq> []" by (auto simp: tracks_def)
  then obtain es0 e where es: "es = es0 @ [e]" by (cases es rule: rev_cases) auto
  from assms(1) have nm: "normalized st = map render es0 @ [render e]"
    and sh: "shape (es0 @ [e])" and cur: "current_chapter st \<noteq> None"
    and lv: "last_verse_in_chapter st = lv_after None (es0 @ [e])"
    unfolding es by (simp_all add: tracks_def del: render.simps)
  from assms(3) nm have np: "\<not> startswith (render e) ''Chapter ''" by (simp del: render.simps)
  have e0: "es0 \<noteq> []"
  proof
    assume "es0 = []"
    with sh obtain n where "e = ChapterLine n" by (cases e) (simp_all add: shape_def)
    with np chapter_line_prefix show False by simp
  qed
  from sh e0 have s0: "shape es0" and ok: "entry_ok e"
    and fl: "case e of LooseLine s \<Rightarrow> startswith (render (last es0)) ''Chapter '' | _ \<Rightarrow> True"
    by (simp_all add: shape_snoc)
  have "\<exists>e'. render e' = render e @ '' '' @ raw \<and> shape (es0 @ [e']) \<and>
          lv_after None (es0 @ [e']) = lv_after None (es0 @ [e])"
  proof (cases e)
    case (ChapterLine n)
    with np chapter_line_prefix show ?thesis by simp
  next
    case (VerseLine v t)
    with ok have "short v" "clean_text t" by (simp_all add: entry_ok_def)
    then have "entry_ok (VerseLine v (t @ '' '' @ raw))"
      using clean_text_merge [OF _ assms(4)] by (simp add: entry_ok_def)
    with s0 e0 VerseLine show ?thesis
      by (intro exI [of _ "VerseLine v (t @ '' '' @ raw)"])
         (simp add: shape_snoc lv_after_snoc)
  next
    case (LooseLine s)
    with ok have "clean_text s" by (simp add: entry_ok_def)
    then have "entry_ok (LooseLine (s @ '' '' @ raw))"
      using clean_text_merge [OF _ assms(4)] by (simp add: entry_ok_def)
    with s0 e0 fl LooseLine show ?thesis
      by (intro exI [of _ "LooseLine (s @ '' '' @ raw)"])
         (simp add: shape_snoc lv_after_snoc)
  qed
  then obtain e' where e': "render e' = render e @ '' '' @ raw" "shape (es0 @ [e'])"
      "lv_after None (es0 @ [e']) = lv_after None (es0 @ [e])"
    by blast
  have "tracks (st\<lparr>normalized :=
                     butlast (normalized st) @ [last (normalized st) @ '' '' @ raw]\<rparr>)
          (es0 @ [e'])"
    using e' cur lv unfolding tracks_def nm by (simp del: render.simps)
  then show ?thesis ..
qed

lemma tracks_step:
  assumes tr: "tracks st es" and nl: "CHR 0x0A \<notin> set ln"
    and step: "clean_step st ln = Inr st'"
  shows "\<exists>es'. tracks st' es' \<and>
           (settled es \<and>
            (strip ln = [] \<or> matches (CHAPTER_HEADING_RE (strip ln)) \<or>
             matches (VERSE_SIMPLE_RE (strip ln))) \<longrightarrow> settled es')"
proof (cases "strip ln = []")
  case True
  with step have "st' = st" by (simp add: clean_step_def)
  with tr show ?thesis by auto
next
  case ne: False
  have nls: "CHR 0x0A \<notin> set (strip ln)" using nl set_strip by blast
  note ends = strip_ends [OF ne]
  have raw: "clean_text (strip ln)" using ne nl by (rule clean_text_strip)
  show ?thesis
  proof (cases "CHAPTER_HEADING_RE (strip ln)")
    case (Some g)
    with ne step have "and_then (py_int g) (\<lambda>ch_num. start_chapter ch_num st) = Inr st'"
      by (simp add: clean_step_def)
    then obtain n where "start_chapter n st = Inr st'"
      by (auto simp: and_then_eq_Inr)
    note s = start_chapter_Inr [OF this]
    have "tracks st' (es @ [ChapterLine n])"
      unfolding s(2) using tr s(1) by (rule tracks_chapter)
    then show ?thesis by (auto simp: settled_snoc)
  next
    case nc: None
    show ?thesis
    proof (cases "VERSE_COLON_RE (strip ln)")
      case (Some r)
      obtain c v t where r: "r = (c, v, t)" by (cases r)
      note m = Some [unfolded r]
      have vs: "VERSE_SIMPLE_RE (strip ln) = None"
      proof (cases "VERSE_SIMPLE_RE (strip ln)")
        case None
        then show ?thesis .
      next
        case (Some q)
        then obtain a b where "VERSE_SIMPLE_RE (strip ln) = Some (a, b)" by (cases q) auto
        from VERSE_COLON_RE_simple [OF this] m show ?thesis by simp
      qed
      have ct: "clean_text t" using m ends(2) nls by (rule colon_verse_clean)
      note t = clean_text_id [OF ct]
      from ne nc m step obtain cn vn st1 where
        a: "(if current_chapter st \<noteq> Some cn then start_chapter cn st else Inr st) = Inr st1"
        and b: "append_verse vn t st1 = Inr st'"
        by (auto simp: clean_step_def Let_def and_then_eq_Inr t)
      note v = append_verse_Inr [OF b]
      have "\<exists>es1. tracks st1 es1 \<and> es1 \<noteq> []"
      proof (cases "current_chapter st \<noteq> Some cn")
        case True
        with a have "start_chapter cn st = Inr st1" by simp
        note s = start_chapter_Inr [OF this]
        have "tracks st1 (es @ [ChapterLine cn])"
          unfolding s(2) using tr s(1) by (rule tracks_chapter)
        then show ?thesis by blast
      next
        case False
        with a have "st1 = st" "current_chapter st \<noteq> None" by auto
        with tr show ?thesis by (auto simp: tracks_def)
      qed
      then obtain es1 where e1: "tracks st1 es1" "es1 \<noteq> []" by blast
      have "tracks st' (es1 @ [VerseLine vn t])"
        unfolding v(2) using e1 v(1) ct by (rule tracks_verse)
      with nc vs ne show ?thesis by (auto simp: matches_def)
    next
      case nk: None
      show ?thesis
      proof (cases "VERSE_SIMPLE_RE (strip ln)")
        case (Some r)
        obtain v t where r: "r = (v, t)" by (cases r)
        note m = Some [unfolded r]
        have ct: "clean_text t" using m ends(2) nls by (rule simple_verse_clean)
        note t = clean_text_id [OF ct]
        from step obtain vn st1 where
          a: "(if current_chapter st = None then start_chapter 1 st
               else if (case last_verse_in_chapter st of
                          None \<Rightarrow> False
                        | Some l \<Rightarrow> vn = 1 \<and> l \<noteq> 0 \<and> l > 1)
               then start_chapter
                      ((case current_chapter st of None \<Rightarrow> 0 | Some c \<Rightarrow> c) + 1) st
               else Inr st) = Inr st1"
          and b: "append_verse vn t st1 = Inr st'"
          unfolding clean_step_bare_verse [OF m] t by (auto simp: and_then_eq_Inr)
        note v = append_verse_Inr [OF b]
        from tr have lv: "last_verse_in_chapter st = lv_after None es"
          and cur: "current_chapter st = None \<longleftrightarrow> es = []"
          by (simp_all add: tracks_def)
        have "\<exists>es1. tracks st1 es1 \<and> es1 \<noteq> [] \<and>
                (settled es \<longrightarrow> settled es1 \<and>
                   \<not> (vn = 1 \<and> (case lv_after None es1 of None \<Rightarrow> False | Some l \<Rightarrow> 1 < l)))"
        proof (cases "current_chapter st = None")
          case True
          with a have "start_chapter 1 st = Inr st1" by simp
          note s = start_chapter_Inr [OF this]
          have "tracks st1 (es @ [ChapterLine 1])"
            unfolding s(2) using tr s(1) by (rule tracks_chapter)
          then show ?thesis
            by (intro exI [of _ "es @ [ChapterLine 1]"]) (simp add: settled_snoc lv_after_snoc)
        next
          case open_ch: False
          show ?thesis
          proof (cases "case last_verse_in_chapter st of
                          None \<Rightarrow> False | Some l \<Rightarrow> vn = 1 \<and> l \<noteq> 0 \<and> l > 1")
            case True
            let ?n = "(case current_chapter st of None \<Rightarrow> 0 | Some c \<Rightarrow> c) + 1"
            from True open_ch a have "start_chapter ?n st = Inr st1"
              by (simp split: if_splits)
            note s = start_chapter_Inr [OF this]
            have "tracks st1 (es @ [ChapterLine ?n])"
              unfolding s(2) using tr s(1) by (rule tracks_chapter)
            then show ?thesis
              by (intro exI [of _ "es @ [ChapterLine ?n]"]) (simp add: settled_snoc lv_after_snoc)
          next
            case False
            with open_ch a have "st1 = st" by (simp split: if_splits)
            moreover from open_ch cur have "es \<noteq> []" by simp
            moreover from False lv
            have "\<not> (vn = 1 \<and> (case lv_after None es of None \<Rightarrow> False | Some l \<Rightarrow> 1 < l))"
              by (auto split: option.splits)
            ultimately show ?thesis using tr by blast
          qed
        qed
        then obtain es1 where e1: "tracks st1 es1" "es1 \<noteq> []" and
          n1: "settled es \<longrightarrow> settled es1 \<and>
                 \<not> (vn = 1 \<and> (case lv_after None es1 of None \<Rightarrow> False | Some l \<Rightarrow> 1 < l))"
          by blast
        have "tracks st' (es1 @ [VerseLine vn t])"
          unfolding v(2) using e1 v(1) ct by (rule tracks_verse)
        with n1 show ?thesis
          by (intro exI [of _ "es1 @ [VerseLine vn t]"]) (simp add: settled_snoc)
      next
        case ns: None
        have plain: "\<not> (strip ln = [] \<or> matches (CHAPTER_HEADING_RE (strip ln)) \<or>
             matches (VERSE_SIMPLE_RE (strip ln)))"
          using ne nc ns by (simp add: matches_def)
        show ?thesis
        proof (cases "normalized st \<noteq> [] \<and> \<not> startswith (last (normalized st)) ''Chapter ''")
          case True
          with ne nc nk ns step
          have s: "st' = st\<lparr>normalized :=
                     butlast (normalized st) @ [last (normalized st) @ '' '' @ strip ln]\<rparr>"
            by (simp add: clean_step_def Let_def)
          from True have a: "normalized st \<noteq> []"
            and b: "\<not> startswith (last (normalized st)) ''Chapter ''"
            by simp_all
          from tracks_merge [OF tr a b raw] plain show ?thesis unfolding s by blast
        next
          case False
          with ne nc nk ns step obtain st1 where
            a: "(if current_chapter st = None then start_chapter 1 st else Inr st) = Inr st1"
            and s: "st' = st1\<lparr>normalized := normalized st1 @ [strip ln]\<rparr>"
            by (auto simp: clean_step_def Let_def and_then_eq_Inr)
          have "\<exists>es1. tracks st1 es1 \<and> es1 \<noteq> [] \<and> startswith (last (normalized st1)) ''Chapter ''"
          proof (cases "current_chapter st = None")
            case True
            with a have "start_chapter 1 st = Inr st1" by simp
            note c = start_chapter_Inr [OF this]
            have "tracks st1 (es @ [ChapterLine 1])"
              unfolding c(2) using tr c(1) by (rule tracks_chapter)
            moreover have "startswith (last (normalized st1)) ''Chapter ''"
              unfolding c(2) using chapter_line_prefix [of 1] by (simp del: render.simps)
            ultimately show ?thesis by blast
          next
            case open_ch: False
            with a have "st1 = st" by simp
            moreover from open_ch tr have "es \<noteq> []" "normalized st \<noteq> []"
              by (auto simp: tracks_def)
            ultimately show ?thesis using tr False by blast
          qed
          then obtain es1 where e1: "tracks st1 es1" "es1 \<noteq> []"
              "startswith (last (normalized st1)) ''Chapter ''"
            by blast
          have "tracks st' (es1 @ [LooseLine (strip ln)])"
            unfolding s using e1(1,2) raw e1(3) by (rule tracks_loose)
          with plain show ?thesis by blast
        qed
      qed
    qed
  qed
qed

lemma tracks_loop:
  assumes "for_each clean_step st lns = Inr st'" and "tracks st es"
    and "\<forall>ln \<in> set lns. CHR 0x0A \<notin> set ln"
  shows "\<exists>es'. tracks st' es' \<and>
           (settled es \<and>
            (\<forall>ln \<in> set lns. strip ln = [] \<or> matches (CHAPTER_HEADING_RE (strip ln)) \<or>
               matches (VERSE_SIMPLE_RE (strip ln))) \<longrightarrow> settled es')"
  using assms
proof (induction lns arbitrary: st es)
  case Nil
  then show ?case by auto
next
  case (Cons ln lns)
  from Cons.prems(1) obtain st1 where
    s1: "clean_step st ln = Inr st1" and r: "for_each clean_step st1 lns = Inr st'"
    by (auto split: sum.splits)
  from Cons.prems(3) have nl: "CHR 0x0A \<notin> set ln" and nls: "\<forall>x \<in> set lns. CHR 0x0A \<notin> set x"
    by simp_all
  from tracks_step [OF Cons.prems(2) nl s1] obtain es1 where
    t1: "tracks st1 es1" and
    n1: "settled es \<and>
           (strip ln = [] \<or> matches (CHAPTER_HEADING_RE (strip ln)) \<or>
            matches (VERSE_SIMPLE_RE (strip ln))) \<longrightarrow> settled es1"
    by blast
  from Cons.IH [OF r t1 nls] obtain es' where
    t': "tracks st' es'" and
    n': "settled es1 \<and>
           (\<forall>x \<in> set lns. strip x = [] \<or> matches (CHAPTER_HEADING_RE (strip x)) \<or>
              matches (VERSE_SIMPLE_RE (strip x))) \<longrightarrow> settled es'"
    by blast
  from t' n1 n' show ?case by auto
qed

lemma clean_filtered_member:
  assumes "x \<in> set (clean_filtered lines)"
  shows "\<exists>ln \<in> set lines. \<not> matches (is_heading ln) \<and> x = rstrip ln"
proof -
  from assms have "x \<in> set (map rstrip (filter (\<lambda>ln. \<not> matches (is_heading ln)) lines))"
    unfolding clean_filtered_def Let_def
    by (metis set_dropWhileD set_rev)
  then show ?thesis by auto
qed

lemma tracks_init: "tracks clean_init []"
  by (simp add: tracks_def clean_init_def shape_def)

lemma settled_Nil: "settled []"
  by (simp add: settled_def)

lemma first_pass_shape:
  assumes "list_all line_free lines" and "clean_book_lines name lines = Inr out"
  shows "\<exists>es. shape es \<and> out = map render es \<and>
           (list_all plain_line lines \<longrightarrow> settled es)"
proof -
  from assms(2) obtain st where
    loop: "for_each clean_step clean_init (clean_filtered lines) = Inr st" and
    out: "out = normalized st"
    by (auto simp: clean_book_lines_def and_then_eq_Inr)
  have nl: "\<forall>x \<in> set (clean_filtered lines). CHR 0x0A \<notin> set x"
  proof
    fix x assume "x \<in> set (clean_filtered lines)"
    from clean_filtered_member [OF this] obtain ln where
      "ln \<in> set lines" "x = rstrip ln" by blast
    with assms(1) show "CHR 0x0A \<notin> set x"
      using set_rstrip [of ln] by (auto simp: list_all_iff line_free_def)
  qed
  from tracks_loop [OF loop tracks_init nl] obtain es where
    t: "tracks st es" and
    n: "settled [] \<and>
          (\<forall>ln \<in> set (clean_filtered lines).
             strip ln = [] \<or> matches (CHAPTER_HEADING_RE (strip ln)) \<or>
             matches (VERSE_SIMPLE_RE (strip ln))) \<longrightarrow> settled es"
    by blast
  have "settled es" if p: "list_all plain_line lines"
  proof -
    have "\<forall>x \<in> set (clean_filtered lines).
             strip x = [] \<or> matches (CHAPTER_HEADING_RE (strip x)) \<or>
             matches (VERSE_SIMPLE_RE (strip x))"
    proof
      fix x assume "x \<in> set (clean_filtered lines)"
      from clean_filtered_member [OF this] obtain ln where
        ln: "ln \<in> set lines" "\<not> matches (is_heading ln)" "x = rstrip ln" by blast
      with p have "plain_line ln" by (simp add: list_all_iff)
      with ln(2) show "strip x = [] \<or> matches (CHAPTER_HEADING_RE (strip x)) \<or>
             matches (VERSE_SIMPLE_RE (strip x))"
        unfolding ln(3) strip_rstrip by (auto simp: plain_line_def)
    qed
    with n settled_Nil show ?thesis by blast
  qed
  with t out show ?thesis by (auto simp: tracks_def)
qed

subsection \<open>One pass and two\<close>

text \<open>
  Claim C8, as stated, fails: \<open>clean_book_lines\<close> does not return its own output
  unchanged. For a book whose lines are \<open>1:5 ...\<close> followed by \<open>1:1 ...\<close> the heading
  pipeline writes chapter 1 with the verses 5 and 1. Read again, these are bare verse lines,
  and the return of the verse number to 1 after 5 makes the normalizer open a chapter 2
  that the first pass did not have. The same happens when the first pass joins the lines
  \<open>12\<close> and \<open>abc\<close>, neither of which is a verse line, to \<open>12 abc\<close>, which is one.
\<close>

theorem normalizer_not_idempotent:
  "book_output (normalized_books (''THE FIRST BOOK OF MOSES: CALLED GENESIS'' # reset_example))
       ''Genesis'' =
     Some [''Chapter 1'', ''5 And God called the light Day'', ''1 In the beginning''] \<and>
   clean_book_lines ''Genesis''
       [''Chapter 1'', ''5 And God called the light Day'', ''1 In the beginning''] =
     Inr [''Chapter 1'', ''5 And God called the light Day'', ''Chapter 2'',
          ''1 In the beginning''] \<and>
   clean_book_lines ''Genesis'' [''Chapter 1'', ''12'', ''abc'', ''1 y''] =
     Inr [''Chapter 1'', ''12 abc'', ''1 y''] \<and>
   clean_book_lines ''Genesis'' [''Chapter 1'', ''12 abc'', ''1 y''] =
     Inr [''Chapter 1'', ''12 abc'', ''Chapter 2'', ''1 y'']"
  by code_simp

text \<open>
  Claim C8, amended. The output of \<open>clean_book_lines\<close> on lines without line breaks is a
  sequence of chapter markers, verse lines and lines kept as they are, of the shape
  described by \<open>shape\<close>. Such a sequence is in normal form when no verse numbered 1
  follows, in its chapter, a verse numbered above 1, and every line kept as it is is no
  book heading and matches none of the three patterns. \<open>clean_book_lines\<close> returns every
  sequence in normal form unchanged; so a second pass returns the output of the first
  unchanged whenever that output is in normal form, whatever lines (colon verse lines and
  continuation lines included) it came from. The output is in normal form for every input
  made of plain lines (book headings, blank lines, chapter markers and bare verse lines).
\<close>

theorem normalizer_idempotent_on_normal_form:
  "(normal_form es \<longrightarrow> clean_book_lines name (map render es) = Inr (map render es)) \<and>
   (list_all line_free lines \<and> clean_book_lines name lines = Inr out \<longrightarrow>
      (\<exists>es. shape es \<and> out = map render es \<and>
            (settled es \<longrightarrow> clean_book_lines name out = Inr out))) \<and>
   (list_all plain_line lines \<and> clean_book_lines name lines = Inr out \<longrightarrow>
      clean_book_lines name out = Inr out)"
proof (intro conjI impI)
  assume "normal_form es"
  then show "clean_book_lines name (map render es) = Inr (map render es)"
    by (rule normal_form_fixed)
next
  assume a: "list_all line_free lines \<and> clean_book_lines name lines = Inr out"
  then obtain es' where e: "shape es'" "out = map render es'"
    using first_pass_shape [of lines name out] by blast
  have "settled es' \<longrightarrow> clean_book_lines name out = Inr out"
    using e normal_form_fixed [of es' name] by (simp add: normal_form_def)
  with e show "\<exists>es. shape es \<and> out = map render es \<and>
            (settled es \<longrightarrow> clean_book_lines name out = Inr out)"
    by blast
next
  assume a: "list_all plain_line lines \<and> clean_book_lines name lines = Inr out"
  then have "list_all line_free lines"
    by (simp add: list_all_iff plain_line_def line_free_def)
  with a obtain es' where e: "shape es'" "out = map render es'" "settled es'"
    using first_pass_shape [of lines name out] by blast
  then show "clean_book_lines name out = Inr out"
    using normal_form_fixed [of es' name] by (simp add: normal_form_def)
qed

theorem normalizer_idempotent_on_normal_form_witness:
  "normal_form colon_example_entries \<and>
   list_all line_free colon_example \<and>
   clean_book_lines ''Genesis'' colon_example =
     Inr [''Chapter 1'', ''1 In the beginning'', ''2 And'', ''Chapter 2'', ''1 Thus''] \<and>
   clean_book_lines ''Genesis''
       [''Chapter 1'', ''1 In the beginning'', ''2 And'', ''Chapter 2'', ''1 Thus''] =
     Inr [''Chapter 1'', ''1 In the beginning'', ''2 And'', ''Chapter 2'', ''1 Thus''] \<and>
   normal_form preface_example_entries \<and>
   clean_book_lines ''Genesis'' preface_example =
     Inr [''Chapter 1'', ''In the beginning'', ''1 God created''] \<and>
   clean_book_lines ''Genesis'' [''Chapter 1'', ''In the beginning'', ''1 God created''] =
     Inr [''Chapter 1'', ''In the beginning'', ''1 God created''] \<and>
   (\<exists>es. shape es \<and>
      [''Chapter 1'', ''1 In the beginning'', ''2 And'', ''Chapter 2'', ''1 Thus''] =
        map render es) \<and>
   list_all plain_line spec_example \<and>
   clean_book_lines ''Genesis'' spec_example =
     Inr [''Chapter 1'', ''1 A'', ''2 B'', ''Chapter 2'', ''1 C''] \<and>
   clean_book_lines ''Genesis'' [''Chapter 1'', ''1 A'', ''2 B'', ''Chapter 2'', ''1 C''] =
     Inr [''Chapter 1'', ''1 A'', ''2 B'', ''Chapter 2'', ''1 C'']"
proof -
  let ?out = "[''Chapter 1'', ''1 In the beginning'', ''2 And'', ''Chapter 2'', ''1 Thus'']"
  let ?pre = "[''Chapter 1'', ''In the beginning'', ''1 God created'']"
  let ?abc = "[''Chapter 1'', ''1 A'', ''2 B'', ''Chapter 2'', ''1 C'']"
  have n1: "normal_form colon_example_entries" by code_simp
  have r1: "map render colon_example_entries = ?out" by code_simp
  have f1: "list_all line_free colon_example" by code_simp
  have c1: "clean_book_lines ''Genesis'' colon_example = Inr ?out" by code_simp
  have n2: "normal_form preface_example_entries" by code_simp
  have r2: "map render preface_example_entries = ?pre" by code_simp
  have c2: "clean_book_lines ''Genesis'' preface_example = Inr ?pre" by code_simp
  have p3: "list_all plain_line spec_example" by code_simp
  have c3: "clean_book_lines ''Genesis'' spec_example = Inr ?abc" by code_simp
  note t1 = normalizer_idempotent_on_normal_form
    [of colon_example_entries "''Genesis''" colon_example ?out]
  note t2 = normalizer_idempotent_on_normal_form
    [of preface_example_entries "''Genesis''" spec_example ?abc]
  from t1 [THEN conjunct1, THEN mp, OF n1]
  have a: "clean_book_lines ''Genesis'' ?out = Inr ?out" unfolding r1 .
  from t1 [THEN conjunct2, THEN conjunct1, THEN mp, OF conjI [OF f1 c1]]
  obtain es0 where x: "shape es0 \<and> ?out = map render es0 \<and>
      (settled es0 \<longrightarrow> clean_book_lines ''Genesis'' ?out = Inr ?out)" ..
  from x [THEN conjunct1] x [THEN conjunct2, THEN conjunct1]
  have "shape es0 \<and> ?out = map render es0" by (rule conjI)
  then have b: "\<exists>es. shape es \<and> ?out = map render es" by (rule exI)
  from t2 [THEN conjunct1, THEN mp, OF n2]
  have c: "clean_book_lines ''Genesis'' ?pre = Inr ?pre" unfolding r2 .
  from t2 [THEN conjunct2, THEN conjunct2, THEN mp, OF conjI [OF p3 c3]]
  have d: "clean_book_lines ''Genesis'' ?abc = Inr ?abc" .
  from n1 f1 c1 a n2 c2 c b p3 c3 d show ?thesis by (intro conjI)
qed

section \<open>Bare verse lines in the normalizer\<close>

lemma verse_digits_match:
  assumes "list_all isdigit ds" and "ds \<noteq> []" and "clean_text t"
  shows "VERSE_SIMPLE_RE (ds @ '' '' @ t) = Some (ds, t)"
proof -
  have s: "ds @ '' '' @ t = ds @ CHR '' '' # t" by simp
  from assms(3) have t: "t \<noteq> []" "\<not> isspace (hd t)" "CHR 0x0A \<notin> set t"
    by (simp_all add: clean_text_def)
  show ?thesis
    unfolding s VERSE_SIMPLE_RE_def Let_def
      digits_prefix [OF assms(1) space_not_digit] spaces_then_one [OF t(1,2)]
    using assms(2) t(3) by (simp add: dot_star_eol_line)
qed

lemma clean_step_strip: "clean_step st (rstrip ln) = clean_step st ln"
  by (simp add: clean_step_def strip_rstrip)

lemma clean_loop_blank:
  "\<forall>b \<in> set bs. blank b \<Longrightarrow> for_each clean_step st bs = Inr st"
  by (induction bs) (simp_all add: clean_step_def blank_def)

lemma trailing_blanks:
  "\<exists>bs. xs = rev (dropWhile blank (rev xs)) @ bs \<and> (\<forall>b \<in> set bs. blank b)"
proof (intro exI conjI)
  have "rev (takeWhile blank (rev xs) @ dropWhile blank (rev xs)) = xs"
    by (simp only: takeWhile_dropWhile_id rev_rev_ident)
  then show "xs = rev (dropWhile blank (rev xs)) @ rev (takeWhile blank (rev xs))"
    by (simp only: rev_append)
  show "\<forall>b \<in> set (rev (takeWhile blank (rev xs))). blank b"
    using set_takeWhileD [of _ blank "rev xs"] by auto
qed

lemma dropWhile_snoc_keep:
  "\<not> p x \<Longrightarrow> dropWhile p (xs @ [x]) = dropWhile p xs @ [x]"
  by (induction xs) simp_all

lemma clean_filtered_snoc:
  assumes "is_heading ln = None" and "strip ln \<noteq> []"
  shows "\<exists>bs. clean_filtered (pre @ [ln]) = clean_filtered pre @ bs @ [rstrip ln] \<and>
              (\<forall>b \<in> set bs. blank b)"
proof -
  let ?f = "map rstrip (filter (\<lambda>ln. \<not> matches (is_heading ln)) pre)"
  have nb: "\<not> blank (rstrip ln)" using assms(2) by (simp add: blank_def strip_rstrip)
  have f: "map rstrip (filter (\<lambda>ln. \<not> matches (is_heading ln)) (pre @ [ln])) = ?f @ [rstrip ln]"
    using assms(1) by (simp add: matches_def)
  have c: "clean_filtered (pre @ [ln]) = dropWhile blank ?f @ [rstrip ln]"
    unfolding clean_filtered_def Let_def f using nb by (simp add: dropWhile_snoc_keep)
  from trailing_blanks [of "dropWhile blank ?f"] obtain bs where
    "dropWhile blank ?f = clean_filtered pre @ bs" "\<forall>b \<in> set bs. blank b"
    unfolding clean_filtered_def Let_def by blast
  with c show ?thesis by auto
qed

lemma verse_line_last:
  assumes "for_each clean_step clean_init (clean_filtered pre) = Inr st"
    and "VERSE_SIMPLE_RE (strip ln) = Some (v, t)"
  shows "clean_book_lines name (pre @ [ln]) =
           (case clean_step st ln of Inl e \<Rightarrow> Inl e | Inr st' \<Rightarrow> Inr (normalized st'))"
proof -
  from VERSE_SIMPLE_RE_digit [OF assms(2)] have ne: "strip ln \<noteq> []" by simp
  have h: "is_heading ln = None"
    using assms(2) ne by (simp add: is_heading_def Let_def matches_def)
  from clean_filtered_snoc [OF h ne, of pre] obtain bs where
    c: "clean_filtered (pre @ [ln]) = clean_filtered pre @ bs @ [rstrip ln]" and
    b: "\<forall>b \<in> set bs. blank b"
    by blast
  have "for_each clean_step clean_init (clean_filtered (pre @ [ln])) = clean_step st ln"
    unfolding c for_each_append assms(1) using clean_loop_blank [OF b, of st]
    by (simp add: clean_step_strip split: sum.splits)
  then show ?thesis
    by (simp add: clean_book_lines_def and_then_def)
qed

lemma long_verse_line_match:
  "VERSE_SIMPLE_RE (strip long_verse_line) = Some (replicate 4301 (CHR ''1''), ''A'')"
proof -
  let ?ds = "replicate 4301 (CHR ''1'')"
  have d: "list_all isdigit ?ds" "?ds \<noteq> []"
    by (simp_all add: list_all_iff isdigit_def)
  have a: "clean_text ''A''" by (simp add: clean_text_def isspace_def)
  have h: "hd (?ds @ '' A'') = CHR ''1''" "last (?ds @ '' A'') = CHR ''A''"
    by (simp_all add: hd_append)
  have s: "strip (?ds @ '' A'') = ?ds @ '' A''"
    by (rule strip_id) (simp_all add: h isspace_def)
  show ?thesis
    unfolding long_verse_line_def s using verse_digits_match [OF d a] by simp
qed

text \<open>
  Claim C5, as stated, fails for a verse number that the interpreter does not convert: on
  a bare verse line whose number has 4301 digits \<open>int(m_simple.group(1))\<close> raises
  ValueError, which \<open>clean_book_lines\<close> does not catch; no chapter is opened and no verse
  is appended.
\<close>

theorem bare_verse_number_too_long:
  "VERSE_SIMPLE_RE (strip long_verse_line) = Some (replicate 4301 (CHR ''1''), ''A'') \<and>
   clean_step clean_init long_verse_line = Inl ValueError \<and>
   clean_book_lines ''Genesis'' [long_verse_line] = Inl ValueError"
proof -
  note m = long_verse_line_match
  have l: "max_str_digits < length (replicate 4301 (CHR ''1''))"
    by (simp add: max_str_digits_def)
  have s: "clean_step clean_init long_verse_line = Inl ValueError"
    unfolding clean_step_bare_verse [OF m] py_int_fail [OF l] by simp
  have i: "for_each clean_step clean_init (clean_filtered []) = Inr clean_init"
    by (simp add: clean_filtered_def)
  from verse_line_last [OF i m, of "''Genesis''"] s
  have "clean_book_lines ''Genesis'' [long_verse_line] = Inl ValueError" by simp
  with m s show ?thesis by simp
qed

text \<open>
  Claim C5, amended. A bare verse line \<open>v text\<close> whose number has at most 4300 digits is
  handled by \<open>clean_book_lines\<close> as follows. With no chapter open, chapter 1 is opened;
  with a chapter open, the previous verse number of the chapter above 1 and \<open>v = 1\<close>, the
  chapter after the current one is opened (which fails with ValueError when its number has
  more than 4300 digits); otherwise no chapter is opened. In every case the verse is then
  appended and becomes the last verse of the chapter. A number with more than 4300 digits
  ends the function with ValueError. This is what the function does with a bare verse line
  that is the last line of its input, in the state its loop has reached on the lines before
  it. The lines \<open>1 A\<close>, \<open>2 B\<close>, \<open>1 C\<close> normalize to chapter 1 with the verses \<open>1 A\<close> and
  \<open>2 B\<close>, then chapter 2 with the verse \<open>1 C\<close>.
\<close>

theorem bare_verse_line_normalized:
  "(VERSE_SIMPLE_RE (strip ln) = Some (v, t) \<and> max_str_digits < length v \<longrightarrow>
      clean_step st ln = Inl ValueError) \<and>
   (VERSE_SIMPLE_RE (strip ln) = Some (v, t) \<and> length v \<le> max_str_digits \<and>
    current_chapter st = None \<longrightarrow>
      clean_step st ln =
        Inr (st\<lparr>current_chapter := Some 1,
                normalized := normalized st @
                  [''Chapter 1'', str_nat (int_of v) @ '' '' @ strip t],
                last_verse_in_chapter := Some (int_of v)\<rparr>)) \<and>
   (VERSE_SIMPLE_RE (strip ln) = Some (v, t) \<and> length v \<le> max_str_digits \<and>
    current_chapter st = Some c \<and> last_verse_in_chapter st = Some l \<and> 1 < l \<and>
    int_of v = 1 \<longrightarrow>
      clean_step st ln =
        (case py_str (c + 1) of
           Inl e \<Rightarrow> Inl e
         | Inr s \<Rightarrow>
             Inr (st\<lparr>current_chapter := Some (c + 1),
                     normalized := normalized st @
                       [''Chapter '' @ s, str_nat (int_of v) @ '' '' @ strip t],
                     last_verse_in_chapter := Some (int_of v)\<rparr>))) \<and>
   (VERSE_SIMPLE_RE (strip ln) = Some (v, t) \<and> length v \<le> max_str_digits \<and>
    current_chapter st = Some c \<and>
    \<not> (\<exists>l. last_verse_in_chapter st = Some l \<and> 1 < l \<and> int_of v = 1) \<longrightarrow>
      clean_step st ln =
        Inr (st\<lparr>normalized := normalized st @ [str_nat (int_of v) @ '' '' @ strip t],
                last_verse_in_chapter := Some (int_of v)\<rparr>)) \<and>
   (for_each clean_step clean_init (clean_filtered pre) = Inr st \<and>
    VERSE_SIMPLE_RE (strip ln) = Some (v, t) \<longrightarrow>
      clean_book_lines name (pre @ [ln]) =
        (case clean_step st ln of Inl e \<Rightarrow> Inl e | Inr st' \<Rightarrow> Inr (normalized st'))) \<and>
   clean_book_lines name [''1 A'', ''2 B'', ''1 C''] =
     Inr [''Chapter 1'', ''1 A'', ''2 B'', ''Chapter 2'', ''1 C'']"
proof (intro conjI impI)
  assume "VERSE_SIMPLE_RE (strip ln) = Some (v, t) \<and> max_str_digits < length v"
  then show "clean_step st ln = Inl ValueError"
    using clean_step_bare_verse [of ln v t st] by (simp add: py_int_fail)
next
  assume a: "VERSE_SIMPLE_RE (strip ln) = Some (v, t) \<and> length v \<le> max_str_digits \<and>
    current_chapter st = None"
  then have g: "list_all isdigit v" "v \<noteq> []"
    using VERSE_SIMPLE_RE_group [of "strip ln" v t] by simp_all
  from a have len: "length v \<le> max_str_digits" by (rule conjunct2 [THEN conjunct1])
  have i: "py_int v = Inr (int_of v)" "py_str (int_of v) = Inr (str_nat (int_of v))"
    by (rule py_int_ok [OF len], rule py_str_int_of [OF g len])
  from a show "clean_step st ln =
        Inr (st\<lparr>current_chapter := Some 1,
                normalized := normalized st @
                  [''Chapter 1'', str_nat (int_of v) @ '' '' @ strip t],
                last_verse_in_chapter := Some (int_of v)\<rparr>)"
    using clean_step_bare_verse [of ln v t st] i
    by (simp add: start_chapter_def append_verse_def py_str_one [unfolded One_nat_def])
next
  assume a: "VERSE_SIMPLE_RE (strip ln) = Some (v, t) \<and> length v \<le> max_str_digits \<and>
    current_chapter st = Some c \<and> last_verse_in_chapter st = Some l \<and> 1 < l \<and>
    int_of v = 1"
  then have g: "list_all isdigit v" "v \<noteq> []"
    using VERSE_SIMPLE_RE_group [of "strip ln" v t] by simp_all
  from a have len: "length v \<le> max_str_digits" by (rule conjunct2 [THEN conjunct1])
  have i: "py_int v = Inr (int_of v)" "py_str (int_of v) = Inr (str_nat (int_of v))"
    by (rule py_int_ok [OF len], rule py_str_int_of [OF g len])
  from a show "clean_step st ln =
        (case py_str (c + 1) of
           Inl e \<Rightarrow> Inl e
         | Inr s \<Rightarrow>
             Inr (st\<lparr>current_chapter := Some (c + 1),
                     normalized := normalized st @
                       [''Chapter '' @ s, str_nat (int_of v) @ '' '' @ strip t],
                     last_verse_in_chapter := Some (int_of v)\<rparr>))"
    using clean_step_bare_verse [of ln v t st] i
    by (cases "py_str (Suc c)") (simp_all add: start_chapter_def append_verse_def)
next
  assume a: "VERSE_SIMPLE_RE (strip ln) = Some (v, t) \<and> length v \<le> max_str_digits \<and>
    current_chapter st = Some c \<and>
    \<not> (\<exists>l. last_verse_in_chapter st = Some l \<and> 1 < l \<and> int_of v = 1)"
  then have g: "list_all isdigit v" "v \<noteq> []"
    using VERSE_SIMPLE_RE_group [of "strip ln" v t] by simp_all
  from a have len: "length v \<le> max_str_digits" by (rule conjunct2 [THEN conjunct1])
  have i: "py_int v = Inr (int_of v)" "py_str (int_of v) = Inr (str_nat (int_of v))"
    by (rule py_int_ok [OF len], rule py_str_int_of [OF g len])
  from a show "clean_step st ln =
        Inr (st\<lparr>normalized := normalized st @ [str_nat (int_of v) @ '' '' @ strip t],
                last_verse_in_chapter := Some (int_of v)\<rparr>)"
    using clean_step_bare_verse [of ln v t st] i
    by (auto simp: append_verse_def split: option.splits)
next
  assume "for_each clean_step clean_init (clean_filtered pre) = Inr st \<and>
    VERSE_SIMPLE_RE (strip ln) = Some (v, t)"
  then show "clean_book_lines name (pre @ [ln]) =
        (case clean_step st ln of Inl e \<Rightarrow> Inl e | Inr st' \<Rightarrow> Inr (normalized st'))"
    using verse_line_last [of pre st ln v t name] by simp
next
  show "clean_book_lines name [''1 A'', ''2 B'', ''1 C''] =
     Inr [''Chapter 1'', ''1 A'', ''2 B'', ''Chapter 2'', ''1 C'']"
    unfolding clean_book_lines_def by code_simp
qed

theorem bare_verse_line_normalized_witness:
  "VERSE_SIMPLE_RE (strip ''1 A'') = Some (''1'', ''A'') \<and>
   current_chapter clean_init = None \<and>
   clean_step clean_init ''1 A'' = Inr after_one_verse \<and>
   VERSE_SIMPLE_RE (strip ''2 B'') = Some (''2'', ''B'') \<and>
   clean_step after_one_verse ''2 B'' = Inr after_two_verses \<and>
   VERSE_SIMPLE_RE (strip ''1 C'') = Some (''1'', ''C'') \<and>
   clean_step after_two_verses ''1 C'' =
     Inr \<lparr>normalized = [''Chapter 1'', ''1 A'', ''2 B'', ''Chapter 2'', ''1 C''],
          current_chapter = Some 2, last_verse_in_chapter = Some 1\<rparr> \<and>
   clean_step after_one_verse long_verse_line = Inl ValueError \<and>
   for_each clean_step clean_init (clean_filtered [''1 A'', ''2 B'']) = Inr after_two_verses \<and>
   clean_book_lines ''Genesis'' ([''1 A'', ''2 B''] @ [''1 C'']) =
     Inr [''Chapter 1'', ''1 A'', ''2 B'', ''Chapter 2'', ''1 C'']"
proof -
  have a: "VERSE_SIMPLE_RE (strip ''1 A'') = Some (''1'', ''A'')"
    and b: "VERSE_SIMPLE_RE (strip ''2 B'') = Some (''2'', ''B'')"
    and c: "VERSE_SIMPLE_RE (strip ''1 C'') = Some (''1'', ''C'')"
    by code_simp+
  have n: "int_of ''1'' = 1" "int_of ''2'' = 2" "str_nat 1 = ''1''" "str_nat 2 = ''2''"
      "py_str (1 + 1) = Inr ''2''" "py_str 2 = Inr ''2''" "py_str (Suc (Suc 0)) = Inr ''2''"
      "str_nat (Suc 0) = ''1''" "int_of ''1'' = Suc 0" "strip ''A'' = ''A''" "strip ''B'' = ''B''"
      "strip ''C'' = ''C''"
    by code_simp+
  have k: "length ''1'' \<le> max_str_digits" "length ''2'' \<le> max_str_digits"
    by (simp_all add: max_str_digits_def)
  have s0: "current_chapter clean_init = None" by (simp add: clean_init_def)
  have s1: "current_chapter after_one_verse = Some 1"
      "\<not> (\<exists>l. last_verse_in_chapter after_one_verse = Some l \<and> 1 < l \<and> int_of ''2'' = 1)"
    by (simp_all add: after_one_verse_def n)
  have s2: "current_chapter after_two_verses = Some 1"
      "last_verse_in_chapter after_two_verses = Some 2" "(1::nat) < 2"
    by (simp_all add: after_two_verses_def)
  have big: "max_str_digits < length (replicate 4301 (CHR ''1''))"
    by (simp add: max_str_digits_def)
  have pre: "for_each clean_step clean_init (clean_filtered [''1 A'', ''2 B'']) =
      Inr after_two_verses"
    by code_simp
  note t1 = bare_verse_line_normalized
    [where ln = "''1 A''" and v = "''1''" and t = "''A''" and st = clean_init]
  note t2 = bare_verse_line_normalized
    [where ln = "''2 B''" and v = "''2''" and t = "''B''" and st = after_one_verse and c = 1]
  note t3 = bare_verse_line_normalized
    [where ln = "''1 C''" and v = "''1''" and t = "''C''" and st = after_two_verses
       and c = 1 and l = 2 and pre = "[''1 A'', ''2 B'']" and name = "''Genesis''"]
  note t4 = bare_verse_line_normalized
    [where ln = long_verse_line and v = "replicate 4301 (CHR ''1'')" and t = "''A''"
       and st = after_one_verse]
  from t1 [THEN conjunct2, THEN conjunct1, THEN mp, OF conjI [OF a conjI [OF k(1) s0]]]
  have r1: "clean_step clean_init ''1 A'' = Inr after_one_verse"
    by (simp add: n clean_init_def after_one_verse_def)
  from t2 [THEN conjunct2, THEN conjunct2, THEN conjunct2, THEN conjunct1, THEN mp,
           OF conjI [OF b conjI [OF k(2) conjI [OF s1]]]]
  have r2: "clean_step after_one_verse ''2 B'' = Inr after_two_verses"
    by (simp add: n after_one_verse_def after_two_verses_def)
  from t3 [THEN conjunct2, THEN conjunct2, THEN conjunct1, THEN mp,
           OF conjI [OF c conjI [OF k(1) conjI [OF s2(1) conjI [OF s2(2) conjI [OF s2(3) n(1)]]]]]]
  have r3: "clean_step after_two_verses ''1 C'' =
     Inr \<lparr>normalized = [''Chapter 1'', ''1 A'', ''2 B'', ''Chapter 2'', ''1 C''],
          current_chapter = Some 2, last_verse_in_chapter = Some 1\<rparr>"
    by (simp add: n after_two_verses_def)
  from t4 [THEN conjunct1, THEN mp, OF conjI [OF long_verse_line_match big]]
  have r4: "clean_step after_one_verse long_verse_line = Inl ValueError" .
  from t3 [THEN conjunct2, THEN conjunct2, THEN conjunct2, THEN conjunct2, THEN conjunct1,
           THEN mp, OF conjI [OF pre c]]
  have r5: "clean_book_lines ''Genesis'' ([''1 A'', ''2 B''] @ [''1 C'']) =
     Inr [''Chapter 1'', ''1 A'', ''2 B'', ''Chapter 2'', ''1 C'']"
    unfolding r3 by simp
  from a s0 r1 b r2 c r3 r4 pre r5 show ?thesis by (intro conjI)
qed

end
